theory Spec2Isabelle
  imports Main
begin

section \<open>Data model\<close>

text \<open>
  The exceptions the two scripts can end in. \<open>WrongFormat\<close> is the handled case
  (the script prints "wrong format" and exits); the other three are Python exceptions
  that no handler catches.
\<close>

datatype error = WrongFormat | KeyError | IndexError | ValueError

text \<open>
  A Python dict keeps its items in insertion order, so it is an association list;
  \<open>d[k]\<close> raises KeyError on a missing key.
\<close>

type_synonym ('k, 'v) dict = "('k \<times> 'v) list"

definition getitem :: "('k, 'v) dict \<Rightarrow> 'k \<Rightarrow> error + 'v" where
  "getitem d k = (case map_of d k of None \<Rightarrow> Inl KeyError | Some v \<Rightarrow> Inr v)"

definition keys :: "('k, 'v) dict \<Rightarrow> 'k list" where
  "keys d = map fst d"

text \<open>
  \<open>collections.Counter\<close>: \<open>update\<close> adds one to the count of each item of the
  iterable, a new key going to the end of the dict.
\<close>

fun counter_incr :: "(int, int) dict \<Rightarrow> int \<Rightarrow> (int, int) dict" where
  "counter_incr [] e = [(e, 1)]"
| "counter_incr ((k, n) # kvs) e =
     (if k = e then (k, n + 1) # kvs else (k, n) # counter_incr kvs e)"

definition counter_update :: "(int, int) dict \<Rightarrow> int list \<Rightarrow> (int, int) dict" where
  "counter_update cov xs = foldl counter_incr cov xs"

text \<open>\<open>Counter.__getitem__\<close>: a missing key counts zero.\<close>

definition counter_get :: "(int, int) dict \<Rightarrow> int \<Rightarrow> int" where
  "counter_get cov e = (case map_of cov e of None \<Rightarrow> 0 | Some n \<Rightarrow> n)"

section \<open>tester.py: the certifier\<close>

subsection \<open>verify_costs\<close>

text \<open>The loop \<open>for i in Sol_Set: cost += C_dict[i]\<close>.\<close>

fun sum_costs :: "(int, int) dict \<Rightarrow> int list \<Rightarrow> int \<Rightarrow> error + int" where
  "sum_costs C_dict [] cost = Inr cost"
| "sum_costs C_dict (i # rest) cost =
     (case getitem C_dict i of
        Inl err \<Rightarrow> Inl err
      | Inr v \<Rightarrow> sum_costs C_dict rest (cost + v))"

definition verify_costs :: "int list \<Rightarrow> int \<Rightarrow> (int, int) dict \<Rightarrow> error + bool" where
  "verify_costs Sol_Set Sol_Costs C_dict =
     (case sum_costs C_dict Sol_Set 0 of
        Inl err \<Rightarrow> Inl err
      | Inr cost \<Rightarrow> if cost = Sol_Costs then Inr True else Inr False)"

subsection \<open>verify_covering_requirement\<close>

text \<open>The loop \<open>for i in Sol_Set: cov.update(S[i])\<close>.\<close>

fun cov_loop :: "(int, int list) dict \<Rightarrow> int list \<Rightarrow> (int, int) dict \<Rightarrow> error + (int, int) dict" where
  "cov_loop S [] cov = Inr cov"
| "cov_loop S (i # rest) cov =
     (case getitem S i of
        Inl err \<Rightarrow> Inl err
      | Inr members \<Rightarrow> cov_loop S rest (counter_update cov members))"

text \<open>The loop \<open>for i in cov: if cov[i] >= Re[i]: req += 1\<close>, over the items of the counter.\<close>

fun req_loop :: "(int, int) dict \<Rightarrow> (int \<times> int) list \<Rightarrow> int \<Rightarrow> error + int" where
  "req_loop Re [] req = Inr req"
| "req_loop Re ((i, n) # rest) req =
     (case getitem Re i of
        Inl err \<Rightarrow> Inl err
      | Inr q \<Rightarrow> req_loop Re rest (if n \<ge> q then req + 1 else req))"

definition verify_covering_requirement ::
  "(int, int) dict \<Rightarrow> int list \<Rightarrow> (int, int list) dict \<Rightarrow> int \<Rightarrow> error + bool" where
  "verify_covering_requirement Re Sol_Set S P_thresh =
     (case cov_loop S Sol_Set [] of
        Inl err \<Rightarrow> Inl err
      | Inr cov \<Rightarrow>
          (case req_loop Re cov 0 of
             Inl err \<Rightarrow> Inl err
           | Inr req \<Rightarrow> if req \<ge> P_thresh then Inr True else Inr False))"

subsection \<open>verify_minimal\<close>

text \<open>
  The loop over \<open>Sol_Set\<close>; \<open>changed.remove(i)\<close> deletes the first occurrence of
  \<open>i\<close> from the copy, which is \<open>remove1\<close>.
\<close>

fun minimal_loop ::
  "(int, int) dict \<Rightarrow> int list \<Rightarrow> (int, int list) dict \<Rightarrow> int \<Rightarrow> int list \<Rightarrow> error + bool" where
  "minimal_loop Re Sol_Set S P_thresh [] = Inr True"
| "minimal_loop Re Sol_Set S P_thresh (i # rest) =
     (case verify_covering_requirement Re (remove1 i Sol_Set) S P_thresh of
        Inl err \<Rightarrow> Inl err
      | Inr flag \<Rightarrow> if flag then Inr False else minimal_loop Re Sol_Set S P_thresh rest)"

definition verify_minimal ::
  "(int, int) dict \<Rightarrow> int list \<Rightarrow> (int, int list) dict \<Rightarrow> int \<Rightarrow> error + bool" where
  "verify_minimal Re Sol_Set S P_thresh = minimal_loop Re Sol_Set S P_thresh Sol_Set"

subsection \<open>main: the three checks in sequence\<close>

text \<open>The four lines the certifier can print.\<close>

definition CostMismatch :: string where "CostMismatch = ''incorrect cost''"
definition Infeasible :: string where "Infeasible = ''infeasible''"
definition NotMinimal :: string where "NotMinimal = ''not minimal''"
definition Correct :: string where "Correct = ''everything is correct!''"

text \<open>
  Lines 182 to 202 of \<open>main\<close>, on the dicts that \<open>read_instance\<close> returned and the
  triple that \<open>read_solution\<close> returned. The result is the printed line.
\<close>

definition main_checks ::
  "(int, int list) dict \<Rightarrow> (int, int) dict \<Rightarrow> (int, int) dict \<Rightarrow> int \<Rightarrow> int \<Rightarrow> int list
     \<Rightarrow> error + string" where
  "main_checks S r c P Costs Sets =
     (case verify_costs Sets Costs c of
        Inl err \<Rightarrow> Inl err
      | Inr cost_flag \<Rightarrow>
          if \<not> cost_flag then Inr CostMismatch
          else (case verify_covering_requirement r Sets S P of
             Inl err \<Rightarrow> Inl err
           | Inr covering_flag \<Rightarrow>
               if \<not> covering_flag then Inr Infeasible
               else (case verify_minimal r Sets S P of
                  Inl err \<Rightarrow> Inl err
                | Inr minimal_flag \<Rightarrow>
                    if \<not> minimal_flag then Inr NotMinimal else Inr Correct)))"

subsection \<open>read_solution\<close>

text \<open>
  The text is cut at single blanks and every piece goes through \<open>int\<close>. A token is
  modelled by the integer it denotes, \<open>None\<close> for a piece that \<open>int\<close> rejects
  (ValueError, which nothing catches here). \<open>instance[1]\<close> on a one-piece text raises
  IndexError. Only the comparison of \<open>k\<close> with the number of ids prints "wrong format".
\<close>

fun read_solution :: "int option list \<Rightarrow> error + (int \<times> int \<times> int list)" where
  "read_solution [] = Inl IndexError"
| "read_solution (None # rest) = Inl ValueError"
| "read_solution [Some k] = Inl IndexError"
| "read_solution (Some k # None # ids) = Inl ValueError"
| "read_solution (Some k # Some Cost # ids) =
     (case those ids of
        None \<Rightarrow> Inl ValueError
      | Some Sets \<Rightarrow> if k \<noteq> int (length Sets) then Inl WrongFormat else Inr (k, Cost, Sets))"

section \<open>solver.py\<close>

subsection \<open>read_instance\<close>

text \<open>
  The instance file as its lines, each line as its tokens (\<open>None\<close> again a token that
  \<open>int\<close> rejects). The whole parse sits in one try block, so every exception (too few
  lines, a first line without exactly three numbers, a bad token, a wrong count) ends in
  "wrong format". The result is the tuple \<open>E, S, r, c, num_E, num_S, P\<close>.
\<close>

type_synonym psmc_instance =
  "(int, int) dict \<times> (int, int list) dict \<times> (int, int) dict \<times> (int, int) dict \<times> int \<times> int \<times> int"

definition read_instance :: "int option list list \<Rightarrow> error + psmc_instance" where
  "read_instance instance =
     (case instance of
        l0 # l1 # l2 # rest \<Rightarrow>
          (case those l0 of
             Some [num_E, num_S, P] \<Rightarrow>
               (let E = zip [1..num_E] [1..num_E] in
                case those l1 of
                  None \<Rightarrow> Inl WrongFormat
                | Some r \<Rightarrow>
                    if int (length r) \<noteq> num_E then Inl WrongFormat
                    else (case those l2 of
                       None \<Rightarrow> Inl WrongFormat
                     | Some c \<Rightarrow>
                         if int (length c) \<noteq> num_S then Inl WrongFormat
                         else (case those (map those rest) of
                            None \<Rightarrow> Inl WrongFormat
                          | Some sets \<Rightarrow>
                              (let S = zip [1..int (length sets)] sets in
                               if int (length S) \<noteq> num_S then Inl WrongFormat
                               else Inr (E, S, zip (keys E) r, zip (keys S) c, num_E, num_S, P)))))
           | _ \<Rightarrow> Inl WrongFormat)
      | _ \<Rightarrow> Inl WrongFormat)"

subsection \<open>create_Instance\<close>

text \<open>
  The model is built through the pulp library, whose objects are modelled by what the calls
  of \<open>create_Instance\<close> put into them. A variable carries the name that the format string
  gives it (\<open>"x_%d" % j\<close> is \<open>X j\<close>, \<open>"y_%d" % e\<close> is \<open>Y e\<close>), its two bounds and its
  category.
\<close>

datatype var_name = X int | Y int

datatype category = LpContinuous | LpInteger

record lp_variable =
  name :: var_name
  lowBound :: int
  upBound :: int
  cat :: category

text \<open>
  \<open>LpVariable.dict(fmt, indexs, lowBound, upBound, cat)\<close>: one variable per index, keyed by
  the index. Iterating a dict yields its keys.
\<close>

definition LpVariable_dict ::
  "(int \<Rightarrow> var_name) \<Rightarrow> int list \<Rightarrow> int \<Rightarrow> int \<Rightarrow> category \<Rightarrow> (int, lp_variable) dict" where
  "LpVariable_dict fmt indexs lo up ct =
     map (\<lambda>i. (i, \<lparr>name = fmt i, lowBound = lo, upBound = up, cat = ct\<rparr>)) indexs"

text \<open>
  An affine expression: its terms (variable and coefficient) in the order they were added,
  and a constant. The arithmetic operators of the library on variables and expressions
  are the three functions below.
\<close>

record affine =
  terms :: "(var_name \<times> int) list"
  constant_term :: int

definition var_expr :: "lp_variable \<Rightarrow> affine" where
  "var_expr v = \<lparr>terms = [(name v, 1)], constant_term = 0\<rparr>"

definition scale :: "int \<Rightarrow> affine \<Rightarrow> affine" where
  "scale k a = \<lparr>terms = map (\<lambda>(v, q). (v, k * q)) (terms a), constant_term = k * constant_term a\<rparr>"

definition add :: "affine \<Rightarrow> affine \<Rightarrow> affine" where
  "add a b = \<lparr>terms = terms a @ terms b, constant_term = constant_term a + constant_term b\<rparr>"

text \<open>
  Python's \<open>sum\<close> starts from the int 0, so the sum of an empty list is an int and not an
  expression; of a nonempty list it is the expression of all the terms.
\<close>

datatype py_number = PyInt int | PyExpr affine

fun py_sum :: "affine list \<Rightarrow> py_number" where
  "py_sum [] = PyInt 0"
| "py_sum (a # rest) = PyExpr (foldl add a rest)"

text \<open>\<open>n - e\<close> for an expression \<open>e\<close> is an expression, also when \<open>n\<close> is an int.\<close>

fun py_sub :: "py_number \<Rightarrow> affine \<Rightarrow> affine" where
  "py_sub (PyInt n) e = add \<lparr>terms = [], constant_term = n\<rparr> (scale (- 1) e)"
| "py_sub (PyExpr a) e = add a (scale (- 1) e)"

text \<open>
  \<open>e >= k\<close> on an expression is the constraint \<open>e - k >= 0\<close>; on two ints it is a Python
  bool.
\<close>

datatype constraint_sense = LpConstraintLE | LpConstraintEQ | LpConstraintGE

record lp_constraint =
  expr :: affine
  csense :: constraint_sense

datatype py_compared = PyBool bool | PyConstraint lp_constraint

fun py_ge :: "py_number \<Rightarrow> int \<Rightarrow> py_compared" where
  "py_ge (PyInt n) k = PyBool (n \<ge> k)"
| "py_ge (PyExpr a) k =
     PyConstraint \<lparr>expr = add a \<lparr>terms = [], constant_term = - k\<rparr>, csense = LpConstraintGE\<rparr>"

text \<open>
  The problem: its sense, its objective once one is set, and its constraints in the order
  they were added. \<open>PSMC += v\<close> sets the objective when \<open>v\<close> is an expression and adds a
  constraint when \<open>v\<close> is one. What the library does with an int or a bool is not decided
  by this repository: it is left to the two parameters \<open>on_int\<close> and \<open>on_bool\<close>.
\<close>

datatype problem_sense = LpMinimize | LpMaximize

record lp_problem =
  sense :: problem_sense
  objective :: "affine option"
  constraints :: "lp_constraint list"

fun iadd_number ::
  "(lp_problem \<Rightarrow> int \<Rightarrow> error + lp_problem) \<Rightarrow> lp_problem \<Rightarrow> py_number \<Rightarrow> error + lp_problem" where
  "iadd_number on_int PSMC (PyExpr a) = Inr (PSMC\<lparr>objective := Some a\<rparr>)"
| "iadd_number on_int PSMC (PyInt n) = on_int PSMC n"

fun iadd_compared ::
  "(lp_problem \<Rightarrow> bool \<Rightarrow> error + lp_problem) \<Rightarrow> lp_problem \<Rightarrow> py_compared \<Rightarrow> error + lp_problem" where
  "iadd_compared on_bool PSMC (PyConstraint k) = Inr (PSMC\<lparr>constraints := constraints PSMC @ [k]\<rparr>)"
| "iadd_compared on_bool PSMC (PyBool b) = on_bool PSMC b"

text \<open>The list \<open>[c[i] * x[i] for i in S]\<close>.\<close>

fun objective_terms ::
  "(int, int) dict \<Rightarrow> (int, lp_variable) dict \<Rightarrow> int list \<Rightarrow> error + affine list" where
  "objective_terms c x [] = Inr []"
| "objective_terms c x (i # rest) =
     (case getitem c i of
        Inl err \<Rightarrow> Inl err
      | Inr ci \<Rightarrow>
          (case getitem x i of
             Inl err \<Rightarrow> Inl err
           | Inr xi \<Rightarrow>
               (case objective_terms c x rest of
                  Inl err \<Rightarrow> Inl err
                | Inr ts \<Rightarrow> Inr (scale ci (var_expr xi) # ts))))"

text \<open>The list \<open>[y[i] for i in E]\<close>.\<close>

fun satisfied_terms :: "(int, lp_variable) dict \<Rightarrow> int list \<Rightarrow> error + affine list" where
  "satisfied_terms y [] = Inr []"
| "satisfied_terms y (i # rest) =
     (case getitem y i of
        Inl err \<Rightarrow> Inl err
      | Inr yi \<Rightarrow>
          (case satisfied_terms y rest of
             Inl err \<Rightarrow> Inl err
           | Inr ts \<Rightarrow> Inr (var_expr yi # ts)))"

text \<open>The list \<open>[x[j] for j in S if i in S[j]]\<close>.\<close>

fun cover_terms ::
  "(int, int list) dict \<Rightarrow> (int, lp_variable) dict \<Rightarrow> int \<Rightarrow> int list \<Rightarrow> error + affine list" where
  "cover_terms S x i [] = Inr []"
| "cover_terms S x i (j # rest) =
     (case getitem S j of
        Inl err \<Rightarrow> Inl err
      | Inr members \<Rightarrow>
          if i \<in> set members then
            (case getitem x j of
               Inl err \<Rightarrow> Inl err
             | Inr xj \<Rightarrow>
                 (case cover_terms S x i rest of
                    Inl err \<Rightarrow> Inl err
                  | Inr ts \<Rightarrow> Inr (var_expr xj # ts)))
          else cover_terms S x i rest)"

text \<open>
  The loop \<open>for i in E: PSMC += sum([x[j] for j in S if i in S[j]]) - y[i]*r[i] >= 0\<close>.
\<close>

fun element_loop ::
  "(lp_problem \<Rightarrow> bool \<Rightarrow> error + lp_problem) \<Rightarrow> (int, int list) dict \<Rightarrow> (int, int) dict
     \<Rightarrow> (int, lp_variable) dict \<Rightarrow> (int, lp_variable) dict \<Rightarrow> int list \<Rightarrow> lp_problem
     \<Rightarrow> error + lp_problem" where
  "element_loop on_bool S r x y [] PSMC = Inr PSMC"
| "element_loop on_bool S r x y (i # rest) PSMC =
     (case cover_terms S x i (keys S) of
        Inl err \<Rightarrow> Inl err
      | Inr xs \<Rightarrow>
          (case getitem y i of
             Inl err \<Rightarrow> Inl err
           | Inr yi \<Rightarrow>
               (case getitem r i of
                  Inl err \<Rightarrow> Inl err
                | Inr ri \<Rightarrow>
                    (case iadd_compared on_bool PSMC
                            (py_ge (PyExpr (py_sub (py_sum xs) (scale ri (var_expr yi)))) 0) of
                       Inl err \<Rightarrow> Inl err
                     | Inr PSMC' \<Rightarrow> element_loop on_bool S r x y rest PSMC'))))"

text \<open>\<open>create_Instance\<close>; it returns the problem and the two variable dicts.\<close>

definition create_Instance ::
  "(lp_problem \<Rightarrow> int \<Rightarrow> error + lp_problem) \<Rightarrow> (lp_problem \<Rightarrow> bool \<Rightarrow> error + lp_problem)
     \<Rightarrow> (int, int) dict \<Rightarrow> (int, int list) dict \<Rightarrow> (int, int) dict \<Rightarrow> (int, int) dict
     \<Rightarrow> int \<Rightarrow> int \<Rightarrow> int
     \<Rightarrow> error + (lp_problem \<times> (int, lp_variable) dict \<times> (int, lp_variable) dict)" where
  "create_Instance on_int on_bool E S r c num_E num_S P =
     (let PSMC = \<lparr>sense = LpMinimize, objective = None, constraints = []\<rparr>;
          x = LpVariable_dict X (keys S) 0 1 LpInteger;
          y = LpVariable_dict Y (keys E) 0 1 LpInteger
      in case objective_terms c x (keys S) of
           Inl err \<Rightarrow> Inl err
         | Inr cs \<Rightarrow>
             (case iadd_number on_int PSMC (py_sum cs) of
                Inl err \<Rightarrow> Inl err
              | Inr PSMC1 \<Rightarrow>
                  (case satisfied_terms y (keys E) of
                     Inl err \<Rightarrow> Inl err
                   | Inr ys \<Rightarrow>
                       (case iadd_compared on_bool PSMC1 (py_ge (py_sum ys) P) of
                          Inl err \<Rightarrow> Inl err
                        | Inr PSMC2 \<Rightarrow>
                            (case element_loop on_bool S r x y (keys E) PSMC2 of
                               Inl err \<Rightarrow> Inl err
                             | Inr PSMC3 \<Rightarrow> Inr (PSMC3, x, y))))))"

section \<open>The specification's notions\<close>

text \<open>The membership of a set: the ids on its line of the instance.\<close>

definition members_of :: "(int, int list) dict \<Rightarrow> int \<Rightarrow> int list" where
  "members_of S j = (case map_of S j of None \<Rightarrow> [] | Some m \<Rightarrow> m)"

text \<open>
  The coverage count as the specification words it: the number of selected sets whose
  membership contains the element. A set is selected once, however often the solution
  lists its id, and contains an element or not, however often its line lists the id.
\<close>

definition spec_coverage :: "(int, int list) dict \<Rightarrow> int list \<Rightarrow> int \<Rightarrow> int" where
  "spec_coverage S Sol e = int (length (filter (\<lambda>j. e \<in> set (members_of S j)) (remdups Sol)))"

text \<open>
  The number of times an element id is listed on the lines of the sets that the solution
  lists, a line counted once for every time the solution lists its set.
\<close>

definition occurrences :: "(int, int list) dict \<Rightarrow> int list \<Rightarrow> int \<Rightarrow> int" where
  "occurrences S Sol e = int (count_list (concat (map (members_of S) Sol)) e)"

text \<open>An element is satisfied iff its coverage count is at least its requirement.\<close>

definition spec_satisfied :: "(int, int) dict \<Rightarrow> (int, int list) dict \<Rightarrow> int list \<Rightarrow> int \<Rightarrow> bool" where
  "spec_satisfied Re S Sol e =
     (case map_of Re e of None \<Rightarrow> False | Some q \<Rightarrow> spec_coverage S Sol e \<ge> q)"

definition spec_satisfied_count :: "(int, int) dict \<Rightarrow> (int, int list) dict \<Rightarrow> int list \<Rightarrow> int" where
  "spec_satisfied_count Re S Sol = int (length (filter (spec_satisfied Re S Sol) (remdups (keys Re))))"

text \<open>The sum of the instance costs of the selected sets.\<close>

definition cost_of :: "(int, int) dict \<Rightarrow> int \<Rightarrow> int" where
  "cost_of c j = (case map_of c j of None \<Rightarrow> 0 | Some v \<Rightarrow> v)"

definition spec_total_cost :: "(int, int) dict \<Rightarrow> int list \<Rightarrow> int" where
  "spec_total_cost c Sol = sum_list (map (cost_of c) Sol)"

text \<open>Every element id that a selected set holds has a requirement.\<close>

definition elements_known :: "(int, int) dict \<Rightarrow> (int, int list) dict \<Rightarrow> int list \<Rightarrow> bool" where
  "elements_known Re S Sol = (\<forall>j \<in> set Sol. \<forall>e \<in> set (members_of S j). e \<in> set (keys Re))"

text \<open>
  The value of an affine expression under an assignment of integers to the variables, and
  what it is for a constraint to hold under it.
\<close>

definition eval_affine :: "(var_name \<Rightarrow> int) \<Rightarrow> affine \<Rightarrow> int" where
  "eval_affine v a = sum_list (map (\<lambda>(n, q). q * v n) (terms a)) + constant_term a"

definition holds :: "(var_name \<Rightarrow> int) \<Rightarrow> lp_constraint \<Rightarrow> bool" where
  "holds v k =
     (case csense k of
        LpConstraintLE \<Rightarrow> eval_affine v (expr k) \<le> 0
      | LpConstraintEQ \<Rightarrow> eval_affine v (expr k) = 0
      | LpConstraintGE \<Rightarrow> eval_affine v (expr k) \<ge> 0)"

text \<open>The integer that the result of a Python \<open>sum\<close> denotes under an assignment.\<close>

fun number_value :: "(var_name \<Rightarrow> int) \<Rightarrow> py_number \<Rightarrow> int" where
  "number_value v (PyInt n) = n"
| "number_value v (PyExpr a) = eval_affine v a"

text \<open>The requirement of an element.\<close>

definition requirement_of :: "(int, int) dict \<Rightarrow> int \<Rightarrow> int" where
  "requirement_of r e = (case map_of r e of None \<Rightarrow> 0 | Some q \<Rightarrow> q)"

text \<open>A binary variable: an integer variable between 0 and 1.\<close>

definition binary_variable :: "var_name \<Rightarrow> lp_variable" where
  "binary_variable n = \<lparr>name = n, lowBound = 0, upBound = 1, cat = LpInteger\<rparr>"

section \<open>Properties\<close>

lemma getitem_notin: "k \<notin> set (keys d) \<Longrightarrow> getitem d k = Inl KeyError"
  by (simp add: getitem_def keys_def map_of_eq_None_iff [THEN iffD2])

lemma getitem_in: "k \<in> set (keys d) \<Longrightarrow> \<exists>v. getitem d k = Inr v \<and> map_of d k = Some v"
  by (cases "map_of d k") (auto simp: getitem_def keys_def map_of_eq_None_iff)

lemma getitem_Inr_keys: "getitem d k = Inr v \<Longrightarrow> k \<in> set (keys d) \<and> map_of d k = Some v"
proof -
  assume a: "getitem d k = Inr v"
  show ?thesis
  proof (cases "k \<in> set (keys d)")
    case True
    from getitem_in [OF True] a True show ?thesis by auto
  next
    case False
    from getitem_notin [OF False] a show ?thesis by simp
  qed
qed

lemma getitem_Inl: "getitem d k = Inl err \<Longrightarrow> err = KeyError \<and> k \<notin> set (keys d)"
proof -
  assume a: "getitem d k = Inl err"
  show ?thesis
  proof (cases "k \<in> set (keys d)")
    case True
    from getitem_in [OF True] a show ?thesis by auto
  next
    case False
    from getitem_notin [OF False] a False show ?thesis by simp
  qed
qed

lemma sum_costs_ok:
  "set Sol \<subseteq> set (keys c) \<Longrightarrow> sum_costs c Sol acc = Inr (acc + spec_total_cost c Sol)"
proof (induction Sol arbitrary: acc)
  case Nil
  show ?case by (simp add: spec_total_cost_def)
next
  case (Cons i rest)
  from Cons.prems have i: "i \<in> set (keys c)" and rest: "set rest \<subseteq> set (keys c)" by auto
  from getitem_in [OF i] obtain v where v: "getitem c i = Inr v" "map_of c i = Some v" by auto
  have "sum_costs c (i # rest) acc = sum_costs c rest (acc + v)" using v(1) by simp
  also have "\<dots> = Inr (acc + v + spec_total_cost c rest)" by (rule Cons.IH [OF rest])
  also have "acc + v + spec_total_cost c rest = acc + spec_total_cost c (i # rest)"
    using v(2) by (simp add: spec_total_cost_def cost_of_def)
  finally show ?case .
qed

lemma sum_costs_bad:
  "j \<in> set Sol \<Longrightarrow> j \<notin> set (keys c) \<Longrightarrow> sum_costs c Sol acc = Inl KeyError"
proof (induction Sol arbitrary: acc)
  case Nil
  then show ?case by simp
next
  case (Cons i rest)
  show ?case
  proof (cases "i \<in> set (keys c)")
    case True
    from getitem_in [OF True] obtain v where v: "getitem c i = Inr v" by auto
    from True Cons.prems have "j \<in> set rest" by auto
    then have "sum_costs c rest (acc + v) = Inl KeyError" by (rule Cons.IH [OF _ Cons.prems(2)])
    then show ?thesis using v by simp
  next
    case False
    then have "getitem c i = Inl KeyError" by (rule getitem_notin)
    then show ?thesis by simp
  qed
qed

text \<open>
  C4: when every selected set id is a key of the cost dict, the cost check returns normally and
  passes exactly when the declared cost equals the sum of the costs of the selected sets; a
  declared cost that differs from that sum by any nonzero amount fails.
\<close>

theorem cost_check_roundtrip:
  assumes "set Sol \<subseteq> set (keys c)"
  shows "verify_costs Sol Cost c = Inr (Cost = spec_total_cost c Sol)
    \<and> (\<forall>d. d \<noteq> 0 \<longrightarrow> verify_costs Sol (spec_total_cost c Sol + d) c = Inr False)"
  using sum_costs_ok [OF assms, of 0] by (simp add: verify_costs_def) 

text \<open>
  The specification's scenario: sets 1 and 2 with costs 5 and 3, declared cost 8 and 7.
\<close>

theorem cost_check_roundtrip_witness:
  "verify_costs [1, 2] 8 [(1, 5), (2, 3)] = Inr True
    \<and> verify_costs [1, 2] 7 [(1, 5), (2, 3)] = Inr False"
proof -
  have h: "set [1, 2] \<subseteq> set (keys [(1::int, 5::int), (2, 3)])" by (simp add: keys_def)
  have t: "spec_total_cost [(1, 5), (2, 3)] [1, 2] = 8"
    by (simp add: spec_total_cost_def cost_of_def)
  note inst = cost_check_roundtrip [OF h, of 8]
  from inst have a: "verify_costs [1, 2] 8 [(1, 5), (2, 3)]
      = Inr (8 = spec_total_cost [(1, 5), (2, 3)] [1, 2])"
    by (rule conjunct1)
  from inst have "\<forall>d. d \<noteq> 0 \<longrightarrow>
      verify_costs [1, 2] (spec_total_cost [(1, 5), (2, 3)] [1, 2] + d) [(1, 5), (2, 3)] = Inr False"
    by (rule conjunct2)
  then have "(- 1 :: int) \<noteq> 0 \<longrightarrow>
      verify_costs [1, 2] (spec_total_cost [(1, 5), (2, 3)] [1, 2] + (- 1)) [(1, 5), (2, 3)]
      = Inr False"
    by (rule spec)
  then have b: "verify_costs [1, 2] 7 [(1, 5), (2, 3)] = Inr False"
    unfolding t by simp
  from a have c: "verify_costs [1, 2] 8 [(1, 5), (2, 3)] = Inr True"
    unfolding t by simp
  from c b show ?thesis by (rule conjI)
qed

lemma verdicts_distinct:
  "CostMismatch \<noteq> Correct" "Infeasible \<noteq> Correct" "NotMinimal \<noteq> Correct"
  by (simp_all add: CostMismatch_def Infeasible_def NotMinimal_def Correct_def)

text \<open>
  C1: the certifier runs cost, covering, minimality in this order and stops at the first check
  that fails: "incorrect cost" when the cost check returns False; otherwise "infeasible" when
  the covering check returns False; otherwise "not minimal" when the minimality check returns
  False; and "everything is correct!" exactly when all three return True.
\<close>

theorem certifier_order:
  "(verify_costs Sets Costs c = Inr False \<longrightarrow> main_checks S r c P Costs Sets = Inr CostMismatch)
 \<and> (verify_costs Sets Costs c = Inr True \<and> verify_covering_requirement r Sets S P = Inr False
      \<longrightarrow> main_checks S r c P Costs Sets = Inr Infeasible)
 \<and> (verify_costs Sets Costs c = Inr True \<and> verify_covering_requirement r Sets S P = Inr True
      \<and> verify_minimal r Sets S P = Inr False
      \<longrightarrow> main_checks S r c P Costs Sets = Inr NotMinimal)
 \<and> (main_checks S r c P Costs Sets = Inr Correct
      \<longleftrightarrow> verify_costs Sets Costs c = Inr True \<and> verify_covering_requirement r Sets S P = Inr True
        \<and> verify_minimal r Sets S P = Inr True)
 \<and> CostMismatch = ''incorrect cost'' \<and> Infeasible = ''infeasible''
 \<and> NotMinimal = ''not minimal'' \<and> Correct = ''everything is correct!''"
proof -
  have a: "verify_costs Sets Costs c = Inr False \<longrightarrow> main_checks S r c P Costs Sets = Inr CostMismatch"
    by (simp add: main_checks_def)
  have b: "verify_costs Sets Costs c = Inr True \<and> verify_covering_requirement r Sets S P = Inr False
      \<longrightarrow> main_checks S r c P Costs Sets = Inr Infeasible"
    by (simp add: main_checks_def)
  have c: "verify_costs Sets Costs c = Inr True \<and> verify_covering_requirement r Sets S P = Inr True
      \<and> verify_minimal r Sets S P = Inr False
      \<longrightarrow> main_checks S r c P Costs Sets = Inr NotMinimal"
    by (simp add: main_checks_def)
  have d: "main_checks S r c P Costs Sets = Inr Correct
      \<longleftrightarrow> verify_costs Sets Costs c = Inr True \<and> verify_covering_requirement r Sets S P = Inr True
        \<and> verify_minimal r Sets S P = Inr True"
    using verdicts_distinct
    by (cases "verify_costs Sets Costs c"; cases "verify_covering_requirement r Sets S P";
        cases "verify_minimal r Sets S P") (auto simp: main_checks_def)
  have e: "CostMismatch = ''incorrect cost''" "Infeasible = ''infeasible''"
    "NotMinimal = ''not minimal''" "Correct = ''everything is correct!''"
    by (simp_all only: CostMismatch_def Infeasible_def NotMinimal_def Correct_def)
  from a b c d e show ?thesis by blast
qed

lemma those_map_Some: "those (map Some xs) = Some xs"
  by (induction xs) simp_all

text \<open>
  On a solution text of at least two integer tokens (the count k and the cost) the guard of
  \<open>read_solution\<close> does what its note says: it prints "wrong format" and exits iff k
  differs from the number of ids that follow, and otherwise returns k, the cost and the ids.
\<close>

theorem read_solution_format:
  "(read_solution (Some k # Some Cost # map Some ids) = Inl WrongFormat \<longleftrightarrow> k \<noteq> int (length ids))
   \<and> (k = int (length ids) \<longrightarrow>
        read_solution (Some k # Some Cost # map Some ids) = Inr (k, Cost, ids))"
  by (simp add: those_map_Some)

text \<open>
  A matching and a mismatching count.
\<close>

theorem read_solution_format_witness:
  "read_solution [Some 2, Some 8, Some 1, Some 2] = Inr (2, 8, [1, 2])
   \<and> read_solution [Some 3, Some 8, Some 1, Some 2] = Inl WrongFormat"
proof -
  from read_solution_format [of 2 8 "[1, 2]"]
  have a: "read_solution [Some 2, Some 8, Some 1, Some 2] = Inr (2, 8, [1, 2])" by simp
  from read_solution_format [of 3 8 "[1, 2]"]
  have b: "read_solution [Some 3, Some 8, Some 1, Some 2] = Inl WrongFormat" by simp
  from a b show ?thesis by (rule conjI)
qed

text \<open>
  C8: on the solution text "5" the count k = 5 differs from the number of ids, which is 0,
  yet \<open>instance[1]\<close> raises IndexError before the guard \<open>k != len(Sets)\<close> is reached:
  "wrong format" is not printed.
\<close>

theorem read_solution_single_token_raises:
  "(5::int) \<noteq> int (length ([] :: int list))
   \<and> read_solution [Some 5] = Inl IndexError
   \<and> read_solution [Some 5] \<noteq> Inl WrongFormat"
  by simp

lemma ex_inst:
  "read_instance [[Some 1, Some 2, Some 1], [Some 1], [Some 5, Some 3], [Some 1], [Some 1]]
     = Inr ([(1, 1)], [(1, [1]), (2, [1])], [(1, 1)], [(1, 5), (2, 3)], 1, 2, 1)"
  by code_simp

lemma ex1: "main_checks [(1, [1]), (2, [1])] [(1, 1)] [(1, 5), (2, 3)] 1 5 [1] = Inr Correct"
  by code_simp

lemma ex2: "verify_costs [2] 3 [(1, 5), (2, 3)] = Inr True"
  by code_simp

lemma ex3: "verify_covering_requirement [(1, 1)] [2] [(1, [1]), (2, [1])] 1 = Inr True"
  by code_simp

text \<open>
  C6: "everything is correct!" does not certify a cheapest solution. One element of requirement
  1, threshold 1, two sets both equal to {1} with costs 5 and 3: selecting set 1 at declared
  cost 5 passes all three checks, while selecting set 2 is feasible at cost 3.
\<close>

theorem correct_is_not_optimal:
  "\<exists>lines E S r c num_E num_S P Costs Sets Costs' Sets'.
     read_instance lines = Inr (E, S, r, c, num_E, num_S, P)
     \<and> main_checks S r c P Costs Sets = Inr Correct
     \<and> verify_costs Sets' Costs' c = Inr True
     \<and> verify_covering_requirement r Sets' S P = Inr True
     \<and> Costs' < Costs"
proof -
  have "(3::int) < 5" by simp
  with ex_inst ex1 ex2 ex3 show ?thesis by blast
qed

lemma w1: "verify_costs [1, 2] 7 [(1, 5), (2, 3)] = Inr False" by code_simp
lemma w2: "verify_costs [] 0 [(1, 5), (2, 3)] = Inr True" by code_simp
lemma w3: "verify_covering_requirement [(1, 1), (2, 1), (3, 1)] [] [(1, [1, 2]), (2, [2, 3])] 2 = Inr False"
  by code_simp
lemma w4: "verify_costs [1, 2] 8 [(1, 5), (2, 3)] = Inr True" by code_simp
lemma w5: "verify_covering_requirement [(1, 1), (2, 1), (3, 1)] [1, 2] [(1, [1, 2]), (2, [2, 3])] 2 = Inr True"
  by code_simp
lemma w6: "verify_minimal [(1, 1), (2, 1), (3, 1)] [1, 2] [(1, [1, 2]), (2, [2, 3])] 2 = Inr False"
  by code_simp
lemma w7: "verify_costs [2] 3 [(1, 5), (2, 3)] = Inr True" by code_simp
lemma w8: "verify_covering_requirement [(1, 1), (2, 1), (3, 1)] [2] [(1, [1, 2]), (2, [2, 3])] 2 = Inr True"
  by code_simp
lemma w9: "verify_minimal [(1, 1), (2, 1), (3, 1)] [2] [(1, [1, 2]), (2, [2, 3])] 2 = Inr True"
  by code_simp

text \<open>
  The four outcomes on the specification's instance (three elements of requirement 1, threshold
  2, set 1 = {1, 2} of cost 5, set 2 = {2, 3} of cost 3).
\<close>

theorem certifier_order_witness:
  "main_checks [(1, [1, 2]), (2, [2, 3])] [(1, 1), (2, 1), (3, 1)] [(1, 5), (2, 3)] 2 7 [1, 2]
     = Inr ''incorrect cost''
   \<and> main_checks [(1, [1, 2]), (2, [2, 3])] [(1, 1), (2, 1), (3, 1)] [(1, 5), (2, 3)] 2 0 []
     = Inr ''infeasible''
   \<and> main_checks [(1, [1, 2]), (2, [2, 3])] [(1, 1), (2, 1), (3, 1)] [(1, 5), (2, 3)] 2 8 [1, 2]
     = Inr ''not minimal''
   \<and> main_checks [(1, [1, 2]), (2, [2, 3])] [(1, 1), (2, 1), (3, 1)] [(1, 5), (2, 3)] 2 3 [2]
     = Inr ''everything is correct!''"
proof -
  from certifier_order [of "[1, 2]" 7 "[(1, 5), (2, 3)]" "[(1, [1, 2]), (2, [2, 3])]"
      "[(1, 1), (2, 1), (3, 1)]" 2] w1
  have a: "main_checks [(1, [1, 2]), (2, [2, 3])] [(1, 1), (2, 1), (3, 1)] [(1, 5), (2, 3)] 2 7 [1, 2]
     = Inr ''incorrect cost''" by metis
  from certifier_order [of "[]" 0 "[(1, 5), (2, 3)]" "[(1, [1, 2]), (2, [2, 3])]"
      "[(1, 1), (2, 1), (3, 1)]" 2] w2 w3
  have b: "main_checks [(1, [1, 2]), (2, [2, 3])] [(1, 1), (2, 1), (3, 1)] [(1, 5), (2, 3)] 2 0 []
     = Inr ''infeasible''" by metis
  from certifier_order [of "[1, 2]" 8 "[(1, 5), (2, 3)]" "[(1, [1, 2]), (2, [2, 3])]"
      "[(1, 1), (2, 1), (3, 1)]" 2] w4 w5 w6
  have c: "main_checks [(1, [1, 2]), (2, [2, 3])] [(1, 1), (2, 1), (3, 1)] [(1, 5), (2, 3)] 2 8 [1, 2]
     = Inr ''not minimal''" by metis
  from certifier_order [of "[2]" 3 "[(1, 5), (2, 3)]" "[(1, [1, 2]), (2, [2, 3])]"
      "[(1, 1), (2, 1), (3, 1)]" 2] w7 w8 w9
  have d: "main_checks [(1, [1, 2]), (2, [2, 3])] [(1, 1), (2, 1), (3, 1)] [(1, 5), (2, 3)] 2 3 [2]
     = Inr ''everything is correct!''" by metis
  from a b c d show ?thesis by blast
qed

lemma counter_get_incr:
  "counter_get (counter_incr cov e) x = counter_get cov x + (if x = e then 1 else 0)"
  by (induction cov e rule: counter_incr.induct) (auto simp: counter_get_def)

lemma keys_counter_incr: "set (keys (counter_incr cov e)) = insert e (set (keys cov))"
  by (induction cov e rule: counter_incr.induct) (auto simp: keys_def)

lemma distinct_counter_incr: "distinct (keys cov) \<Longrightarrow> distinct (keys (counter_incr cov e))"
proof (induction cov e rule: counter_incr.induct)
  case (1 e)
  show ?case by (simp add: keys_def)
next
  case (2 k n kvs e)
  show ?case
  proof (cases "k = e")
    case True
    with 2 show ?thesis by (simp add: keys_def)
  next
    case False
    from 2 have d: "distinct (keys kvs)" and k: "k \<notin> set (keys kvs)" by (simp_all add: keys_def)
    from 2(1) [OF False d] have "distinct (keys (counter_incr kvs e))" .
    moreover from k False have "k \<notin> set (keys (counter_incr kvs e))"
      by (simp add: keys_counter_incr)
    ultimately show ?thesis using False by (simp add: keys_def)
  qed
qed

lemma counter_update_Cons: "counter_update cov (a # xs) = counter_update (counter_incr cov a) xs"
  by (simp add: counter_update_def)

lemma counter_update_Nil: "counter_update cov [] = cov"
  by (simp add: counter_update_def)

lemma counter_get_update:
  "counter_get (counter_update cov xs) x = counter_get cov x + int (count_list xs x)"
  by (induction xs arbitrary: cov)
     (simp_all add: counter_update_Nil counter_update_Cons counter_get_incr)

lemma keys_counter_update: "set (keys (counter_update cov xs)) = set (keys cov) \<union> set xs"
  by (induction xs arbitrary: cov)
     (simp_all add: counter_update_Nil counter_update_Cons keys_counter_incr)

lemma distinct_counter_update: "distinct (keys cov) \<Longrightarrow> distinct (keys (counter_update cov xs))"
  by (induction xs arbitrary: cov)
     (simp_all add: counter_update_Nil counter_update_Cons distinct_counter_incr)

lemma members_of_Some: "map_of S j = Some m \<Longrightarrow> members_of S j = m"
  by (simp add: members_of_def)

lemma occurrences_Nil: "occurrences S [] x = 0"
  by (simp add: occurrences_def)

lemma occurrences_Cons:
  "occurrences S (j # Sol) x = int (count_list (members_of S j) x) + occurrences S Sol x"
  by (simp add: occurrences_def)

lemma cov_loop_ok:
  "set Sol \<subseteq> set (keys S) \<Longrightarrow>
   \<exists>cov'. cov_loop S Sol cov = Inr cov'
     \<and> (\<forall>x. counter_get cov' x = counter_get cov x + occurrences S Sol x)
     \<and> set (keys cov') = set (keys cov) \<union> (\<Union>j\<in>set Sol. set (members_of S j))
     \<and> (distinct (keys cov) \<longrightarrow> distinct (keys cov'))"
proof (induction Sol arbitrary: cov)
  case Nil
  show ?case by (simp add: occurrences_Nil)
next
  case (Cons i rest)
  from Cons.prems have i: "i \<in> set (keys S)" and rest: "set rest \<subseteq> set (keys S)" by auto
  from getitem_in [OF i] obtain m where m: "getitem S i = Inr m" "map_of S i = Some m" by auto
  have mem: "members_of S i = m" using m(2) by (rule members_of_Some)
  from Cons.IH [OF rest, of "counter_update cov m"] obtain cov' where
    c1: "cov_loop S rest (counter_update cov m) = Inr cov'" and
    c2: "\<forall>x. counter_get cov' x = counter_get (counter_update cov m) x + occurrences S rest x" and
    c3: "set (keys cov') = set (keys (counter_update cov m)) \<union> (\<Union>j\<in>set rest. set (members_of S j))" and
    c4: "distinct (keys (counter_update cov m)) \<longrightarrow> distinct (keys cov')"
    by blast
  have "cov_loop S (i # rest) cov = Inr cov'" using m(1) c1 by simp
  moreover have "\<forall>x. counter_get cov' x = counter_get cov x + occurrences S (i # rest) x"
    using c2 by (simp add: counter_get_update occurrences_Cons mem)
  moreover have "set (keys cov') = set (keys cov) \<union> (\<Union>j\<in>set (i # rest). set (members_of S j))"
    using c3 by (auto simp: keys_counter_update mem)
  moreover have "distinct (keys cov) \<longrightarrow> distinct (keys cov')"
    using c4 by (simp add: distinct_counter_update)
  ultimately show ?case by blast
qed

lemma cov_loop_bad:
  "j \<in> set Sol \<Longrightarrow> j \<notin> set (keys S) \<Longrightarrow> cov_loop S Sol cov = Inl KeyError"
proof (induction Sol arbitrary: cov)
  case Nil
  then show ?case by simp
next
  case (Cons i rest)
  show ?case
  proof (cases "i \<in> set (keys S)")
    case True
    from getitem_in [OF True] obtain m where m: "getitem S i = Inr m" by auto
    from True Cons.prems have "j \<in> set rest" by auto
    then have "cov_loop S rest (counter_update cov m) = Inl KeyError"
      by (rule Cons.IH [OF _ Cons.prems(2)])
    then show ?thesis using m by simp
  next
    case False
    then have "getitem S i = Inl KeyError" by (rule getitem_notin)
    then show ?thesis by simp
  qed
qed

lemma cov_loop_Inr_ids: "cov_loop S Sol cov = Inr cov' \<Longrightarrow> set Sol \<subseteq> set (keys S)"
proof (rule ccontr)
  assume a: "cov_loop S Sol cov = Inr cov'" and "\<not> set Sol \<subseteq> set (keys S)"
  then obtain j where "j \<in> set Sol" "j \<notin> set (keys S)" by auto
  from cov_loop_bad [OF this] a show False by simp
qed

lemma req_loop_ok:
  "fst ` set items \<subseteq> set (keys Re) \<Longrightarrow>
   req_loop Re items req
     = Inr (req + int (length (filter (\<lambda>(i, n). the (map_of Re i) \<le> n) items)))"
proof (induction items arbitrary: req)
  case Nil
  show ?case by simp
next
  case (Cons a items)
  obtain i n where a: "a = (i, n)" by (cases a)
  from Cons.prems a have i: "i \<in> set (keys Re)" and rest: "fst ` set items \<subseteq> set (keys Re)"
    by auto
  from getitem_in [OF i] obtain q where q: "getitem Re i = Inr q" "map_of Re i = Some q" by auto
  show ?case using q Cons.IH [OF rest] by (simp add: a)
qed

lemma req_loop_bad:
  "i \<in> fst ` set items \<Longrightarrow> i \<notin> set (keys Re) \<Longrightarrow> req_loop Re items req = Inl KeyError"
proof (induction items arbitrary: req)
  case Nil
  then show ?case by simp
next
  case (Cons a items)
  obtain k n where a: "a = (k, n)" by (cases a)
  show ?case
  proof (cases "k \<in> set (keys Re)")
    case True
    from getitem_in [OF True] obtain q where q: "getitem Re k = Inr q" by auto
    from True Cons.prems a have "i \<in> fst ` set items" by auto
    then have "\<And>req. req_loop Re items req = Inl KeyError"
      by (rule Cons.IH [OF _ Cons.prems(2)])
    then show ?thesis using q by (simp add: a)
  next
    case False
    then have "getitem Re k = Inl KeyError" by (rule getitem_notin)
    then show ?thesis by (simp add: a)
  qed
qed

lemma counter_get_Nil: "counter_get [] x = 0"
  by (simp add: counter_get_def)

lemma cov_loop_spec:
  assumes "cov_loop S Sol [] = Inr cov"
  shows "counter_get cov x = occurrences S Sol x"
proof -
  from assms have "set Sol \<subseteq> set (keys S)" by (rule cov_loop_Inr_ids)
  from cov_loop_ok [OF this, of "[]"] assms show ?thesis by (auto simp: counter_get_Nil)
qed

lemma occurrences_append:
  "occurrences S (xs @ ys) x = occurrences S xs x + occurrences S ys x"
  by (simp add: occurrences_def)

lemma occurrences_nonneg: "0 \<le> occurrences S Sol x"
  by (simp add: occurrences_def)

lemma occurrences_insert:
  "occurrences S (take n Sol @ j # drop n Sol) x
     = occurrences S Sol x + int (count_list (members_of S j) x)"
proof -
  have "occurrences S (take n Sol @ j # drop n Sol) x
      = occurrences S (take n Sol) x + int (count_list (members_of S j) x)
        + occurrences S (drop n Sol) x"
    by (simp add: occurrences_append occurrences_Cons)
  also have "\<dots> = occurrences S (take n Sol @ drop n Sol) x + int (count_list (members_of S j) x)"
    by (simp only: occurrences_append)
  finally show ?thesis by simp
qed

lemma occurrences_remove1:
  "i \<in> set Sol \<Longrightarrow>
   occurrences S Sol x = occurrences S (remove1 i Sol) x + int (count_list (members_of S i) x)"
  by (induction Sol) (auto simp: occurrences_Cons)

text \<open>
  C7: when the coverage loop returns for a solution list, it also returns for the list with any
  set of the instance inserted at any position and for the list with any one member removed;
  every element's count is at least the original count after the insertion and at most the
  original count after the removal.
\<close>

theorem coverage_monotone:
  assumes "cov_loop S Sol [] = Inr cov"
  shows "(\<forall>j n. j \<in> set (keys S) \<longrightarrow>
            (\<exists>cov'. cov_loop S (take n Sol @ j # drop n Sol) [] = Inr cov'
               \<and> (\<forall>e. counter_get cov e \<le> counter_get cov' e)))
       \<and> (\<forall>i \<in> set Sol.
            \<exists>cov'. cov_loop S (remove1 i Sol) [] = Inr cov'
               \<and> (\<forall>e. counter_get cov' e \<le> counter_get cov e))"
proof (intro conjI allI impI ballI)
  fix j n
  assume j: "j \<in> set (keys S)"
  from assms have ids: "set Sol \<subseteq> set (keys S)" by (rule cov_loop_Inr_ids)
  have "set (take n Sol @ j # drop n Sol) \<subseteq> set (keys S)"
    using ids j set_take_subset [of n Sol] set_drop_subset [of n Sol] by auto
  from cov_loop_ok [OF this, of "[]"] obtain cov' where
    c: "cov_loop S (take n Sol @ j # drop n Sol) [] = Inr cov'" by blast
  have "\<forall>e. counter_get cov e \<le> counter_get cov' e"
    by (simp add: cov_loop_spec [OF assms] cov_loop_spec [OF c] occurrences_insert)
  with c show "\<exists>cov'. cov_loop S (take n Sol @ j # drop n Sol) [] = Inr cov'
               \<and> (\<forall>e. counter_get cov e \<le> counter_get cov' e)" by blast
next
  fix i
  assume i: "i \<in> set Sol"
  from assms have ids: "set Sol \<subseteq> set (keys S)" by (rule cov_loop_Inr_ids)
  have "set (remove1 i Sol) \<subseteq> set (keys S)"
    using ids set_remove1_subset [of i Sol] by auto
  from cov_loop_ok [OF this, of "[]"] obtain cov' where
    c: "cov_loop S (remove1 i Sol) [] = Inr cov'" by blast
  have "\<forall>e. counter_get cov' e \<le> counter_get cov e"
    by (simp add: cov_loop_spec [OF assms] cov_loop_spec [OF c] occurrences_remove1 [OF i])
  with c show "\<exists>cov'. cov_loop S (remove1 i Sol) [] = Inr cov'
               \<and> (\<forall>e. counter_get cov' e \<le> counter_get cov e)" by blast
qed

lemma length_filter_items:
  assumes "distinct (keys cov)"
  shows "length (filter (\<lambda>(i, n). Q i n) cov)
       = card {i \<in> set (keys cov). Q i (counter_get cov i)}"
proof -
  have "filter (\<lambda>(i, n). Q i n) cov = filter (\<lambda>p. Q (fst p) (counter_get cov (fst p))) cov"
  proof (rule filter_cong [OF refl])
    fix p
    assume p: "p \<in> set cov"
    obtain i n where e: "p = (i, n)" by (cases p)
    from assms have "distinct (map fst cov)" by (simp add: keys_def)
    from map_of_is_SomeI [OF this] p e have "map_of cov i = Some n" by simp
    then have "counter_get cov i = n" by (simp add: counter_get_def)
    then show "(case p of (i, n) \<Rightarrow> Q i n) = Q (fst p) (counter_get cov (fst p))"
      by (simp add: e)
  qed
  then have "length (filter (\<lambda>(i, n). Q i n) cov)
      = length (filter (\<lambda>i. Q i (counter_get cov i)) (keys cov))"
    by (simp add: keys_def filter_map comp_def)
  also have "\<dots> = card ({i. Q i (counter_get cov i)} \<inter> set (keys cov))"
    using assms by (rule distinct_length_filter)
  also have "{i. Q i (counter_get cov i)} \<inter> set (keys cov)
      = {i \<in> set (keys cov). Q i (counter_get cov i)}" by auto
  finally show ?thesis .
qed

lemma spec_satisfied_count_card:
  "spec_satisfied_count Re S Sol = int (card {e \<in> set (keys Re). spec_satisfied Re S Sol e})"
proof -
  have "length (filter (spec_satisfied Re S Sol) (remdups (keys Re)))
      = card ({e. spec_satisfied Re S Sol e} \<inter> set (remdups (keys Re)))"
    by (rule distinct_length_filter) simp
  also have "{e. spec_satisfied Re S Sol e} \<inter> set (remdups (keys Re))
      = {e \<in> set (keys Re). spec_satisfied Re S Sol e}" by auto
  finally show ?thesis by (simp add: spec_satisfied_count_def)
qed

lemma occurrences_pos_member:
  assumes "0 < occurrences S Sol e"
  shows "e \<in> (\<Union>j\<in>set Sol. set (members_of S j))"
proof -
  from assms have "0 < count_list (concat (map (members_of S) Sol)) e"
    by (simp add: occurrences_def)
  then have "e \<in> set (concat (map (members_of S) Sol))"
    using count_list_0_iff [of "concat (map (members_of S) Sol)" e] by auto
  then show ?thesis by auto
qed

lemma count_list_distinct:
  "distinct m \<Longrightarrow> count_list m e = (if e \<in> set m then 1 else 0)"
  by (induction m) auto

lemma occurrences_selected:
  "\<forall>j \<in> set Sol. distinct (members_of S j) \<Longrightarrow>
   occurrences S Sol e = int (length (filter (\<lambda>j. e \<in> set (members_of S j)) Sol))"
  by (induction Sol) (simp_all add: occurrences_Nil occurrences_Cons count_list_distinct)

lemma occurrences_distinct:
  assumes "distinct Sol" and "\<forall>j \<in> set Sol. distinct (members_of S j)"
  shows "occurrences S Sol e = spec_coverage S Sol e"
  using occurrences_selected [OF assms(2), of e] assms(1)
  by (simp add: spec_coverage_def distinct_remdups_id)

lemma covering_returns_count:
  assumes pos: "\<forall>(e, q) \<in> set Re. 0 < q"
      and ids: "set Sol \<subseteq> set (keys S)"
      and known: "elements_known Re S Sol"
      and dSol: "distinct Sol"
      and dMem: "\<forall>j \<in> set Sol. distinct (members_of S j)"
  shows "verify_covering_requirement Re Sol S P = Inr (P \<le> spec_satisfied_count Re S Sol)"
proof -
  note occ = occurrences_distinct [OF dSol dMem]
  from cov_loop_ok [OF ids, of "[]"] obtain cov where
    c1: "cov_loop S Sol [] = Inr cov" and
    c2: "\<forall>x. counter_get cov x = spec_coverage S Sol x" and
    c3: "set (keys cov) = (\<Union>j\<in>set Sol. set (members_of S j))" and
    c4: "distinct (keys cov)"
    by (auto simp: counter_get_Nil keys_def occ)
  from known c3 have sub: "set (keys cov) \<subseteq> set (keys Re)"
    by (auto simp: elements_known_def)
  then have "fst ` set cov \<subseteq> set (keys Re)" by (simp add: keys_def)
  from req_loop_ok [OF this, of 0]
  have r: "req_loop Re cov 0
      = Inr (int (length (filter (\<lambda>(i, n). the (map_of Re i) \<le> n) cov)))" by simp
  have "{i \<in> set (keys cov). the (map_of Re i) \<le> counter_get cov i}
      = {e \<in> set (keys Re). spec_satisfied Re S Sol e}"
  proof (rule set_eqI, rule iffI)
    fix i
    assume "i \<in> {i \<in> set (keys cov). the (map_of Re i) \<le> counter_get cov i}"
    then have a: "i \<in> set (keys cov)" and b: "the (map_of Re i) \<le> counter_get cov i" by auto
    from a sub have k: "i \<in> set (keys Re)" by auto
    from getitem_in [OF k] obtain q where q: "map_of Re i = Some q" by auto
    from b q c2 have "spec_satisfied Re S Sol i" by (simp add: spec_satisfied_def)
    with k show "i \<in> {e \<in> set (keys Re). spec_satisfied Re S Sol e}" by simp
  next
    fix i
    assume "i \<in> {e \<in> set (keys Re). spec_satisfied Re S Sol e}"
    then have k: "i \<in> set (keys Re)" and s: "spec_satisfied Re S Sol i" by auto
    from getitem_in [OF k] obtain q where q: "map_of Re i = Some q" by auto
    from q have "(i, q) \<in> set Re" by (rule map_of_SomeD)
    with pos have qpos: "0 < q" by auto
    from s q have le: "q \<le> spec_coverage S Sol i" by (simp add: spec_satisfied_def)
    with qpos have "0 < occurrences S Sol i" by (simp add: occ)
    then have "i \<in> (\<Union>j\<in>set Sol. set (members_of S j))" by (rule occurrences_pos_member)
    with c3 have a: "i \<in> set (keys cov)" by simp
    from le q c2 have "the (map_of Re i) \<le> counter_get cov i" by simp
    with a show "i \<in> {i \<in> set (keys cov). the (map_of Re i) \<le> counter_get cov i}" by simp
  qed
  with length_filter_items [OF c4, of "\<lambda>i n. the (map_of Re i) \<le> n"]
  have "int (length (filter (\<lambda>(i, n). the (map_of Re i) \<le> n) cov))
      = spec_satisfied_count Re S Sol"
    by (simp add: spec_satisfied_count_card)
  with r have "req_loop Re cov 0 = Inr (spec_satisfied_count Re S Sol)" by simp
  with c1 show ?thesis by (simp add: verify_covering_requirement_def)
qed

text \<open>
  C2, as amended: for positive requirements, a solution whose set ids are pairwise distinct
  keys of the membership dict, and selected sets whose lines repeat no element id and hold
  only element ids with a requirement, the counter built by the covering check gives each
  element the number of selected sets whose membership contains it, and the check returns
  True exactly when the number of satisfied elements is at least the threshold; so exactly
  threshold satisfied elements pass and threshold - 1 fail.
\<close>

theorem covering_check_counts:
  assumes pos: "\<forall>(e, q) \<in> set Re. 0 < q"
      and ids: "set Sol \<subseteq> set (keys S)"
      and known: "elements_known Re S Sol"
      and dSol: "distinct Sol"
      and dMem: "\<forall>j \<in> set Sol. distinct (members_of S j)"
  shows "(\<exists>cov. cov_loop S Sol [] = Inr cov \<and> (\<forall>e. counter_get cov e = spec_coverage S Sol e))
       \<and> verify_covering_requirement Re Sol S P = Inr (P \<le> spec_satisfied_count Re S Sol)
       \<and> (spec_satisfied_count Re S Sol = P
            \<longrightarrow> verify_covering_requirement Re Sol S P = Inr True)
       \<and> (spec_satisfied_count Re S Sol = P - 1
            \<longrightarrow> verify_covering_requirement Re Sol S P = Inr False)"
proof -
  from cov_loop_ok [OF ids, of "[]"]
  have a: "\<exists>cov. cov_loop S Sol [] = Inr cov \<and> (\<forall>e. counter_get cov e = spec_coverage S Sol e)"
    by (auto simp: counter_get_Nil occurrences_distinct [OF dSol dMem])
  note c = covering_returns_count [OF pos ids known dSol dMem, of P]
  from c have d: "spec_satisfied_count Re S Sol = P
            \<longrightarrow> verify_covering_requirement Re Sol S P = Inr True" by simp
  from c have e: "spec_satisfied_count Re S Sol = P - 1
            \<longrightarrow> verify_covering_requirement Re Sol S P = Inr False" by simp
  from a c d e show ?thesis by blast
qed

lemma elements_known_subset:
  "elements_known Re S Sol \<Longrightarrow> set Sol' \<subseteq> set Sol \<Longrightarrow> elements_known Re S Sol'"
  by (auto simp: elements_known_def)

lemma covering_returns:
  assumes ids: "set Sol \<subseteq> set (keys S)" and known: "elements_known Re S Sol"
  shows "\<exists>b. verify_covering_requirement Re Sol S P = Inr b"
proof -
  from cov_loop_ok [OF ids, of "[]"] obtain cov where
    c1: "cov_loop S Sol [] = Inr cov" and
    c3: "set (keys cov) = (\<Union>j\<in>set Sol. set (members_of S j))"
    by (auto simp: keys_def)
  from known c3 have "set (keys cov) \<subseteq> set (keys Re)"
    by (auto simp: elements_known_def)
  then have "fst ` set cov \<subseteq> set (keys Re)" by (simp add: keys_def)
  from req_loop_ok [OF this, of 0] c1 show ?thesis
    by (auto simp: verify_covering_requirement_def)
qed

lemma covering_raises_unknown:
  assumes ids: "set Sol \<subseteq> set (keys S)" and unknown: "\<not> elements_known Re S Sol"
  shows "verify_covering_requirement Re Sol S P = Inl KeyError"
proof -
  from cov_loop_ok [OF ids, of "[]"] obtain cov where
    c1: "cov_loop S Sol [] = Inr cov" and
    c3: "set (keys cov) = (\<Union>j\<in>set Sol. set (members_of S j))"
    by (auto simp: keys_def)
  from unknown obtain j e where "j \<in> set Sol" "e \<in> set (members_of S j)" "e \<notin> set (keys Re)"
    by (auto simp: elements_known_def)
  with c3 have "e \<in> fst ` set cov" and "e \<notin> set (keys Re)" by (auto simp: keys_def)
  then have "req_loop Re cov 0 = Inl KeyError" by (rule req_loop_bad)
  with c1 show ?thesis by (simp add: verify_covering_requirement_def)
qed

lemma minimal_loop_ok:
  "\<forall>i \<in> set xs. \<exists>b. verify_covering_requirement Re (remove1 i Sol) S P = Inr b \<Longrightarrow>
   minimal_loop Re Sol S P xs
     = Inr (\<not> (\<exists>i \<in> set xs. verify_covering_requirement Re (remove1 i Sol) S P = Inr True))"
proof (induction xs)
  case Nil
  show ?case by simp
next
  case (Cons i xs)
  from Cons.prems obtain b where b: "verify_covering_requirement Re (remove1 i Sol) S P = Inr b"
    by auto
  from Cons.prems have "\<forall>i \<in> set xs. \<exists>b. verify_covering_requirement Re (remove1 i Sol) S P = Inr b"
    by simp
  from Cons.IH [OF this] b show ?case by (cases b) simp_all
qed

lemma removals_return:
  assumes ids: "set Sol \<subseteq> set (keys S)" and known: "elements_known Re S Sol"
  shows "\<forall>i \<in> set Sol. \<exists>b. verify_covering_requirement Re (remove1 i Sol) S P = Inr b"
proof
  fix i
  assume "i \<in> set Sol"
  have sub: "set (remove1 i Sol) \<subseteq> set Sol" by (rule set_remove1_subset)
  with ids have "set (remove1 i Sol) \<subseteq> set (keys S)" by auto
  moreover from known sub have "elements_known Re S (remove1 i Sol)"
    by (rule elements_known_subset)
  ultimately show "\<exists>b. verify_covering_requirement Re (remove1 i Sol) S P = Inr b"
    by (rule covering_returns)
qed

lemma verify_minimal_value:
  assumes ids: "set Sol \<subseteq> set (keys S)" and known: "elements_known Re S Sol"
  shows "verify_minimal Re Sol S P
     = Inr (\<not> (\<exists>j \<in> set Sol. verify_covering_requirement Re (remove1 j Sol) S P = Inr True))"
  unfolding verify_minimal_def
  by (rule minimal_loop_ok [OF removals_return [OF ids known]])

lemma verdicts_distinct_min:
  "CostMismatch \<noteq> NotMinimal" "Infeasible \<noteq> NotMinimal" "Correct \<noteq> NotMinimal"
  by (simp_all add: CostMismatch_def Infeasible_def NotMinimal_def Correct_def)

text \<open>
  C3, as amended: for a solution whose set ids are keys of the membership dict and whose
  selected sets hold only element ids with a requirement, the minimality check returns False
  iff the solution with the first occurrence of some single member removed still passes the
  covering check, returns True iff every such removal fails it, and the certifier prints
  "not minimal" iff the cost and covering checks pass and such a member exists.
\<close>

theorem minimality_single_removal:
  assumes ids: "set Sol \<subseteq> set (keys S)" and known: "elements_known Re S Sol"
  shows "(verify_minimal Re Sol S P = Inr False
            \<longleftrightarrow> (\<exists>j \<in> set Sol. verify_covering_requirement Re (remove1 j Sol) S P = Inr True))
       \<and> (verify_minimal Re Sol S P = Inr True
            \<longleftrightarrow> (\<forall>j \<in> set Sol. verify_covering_requirement Re (remove1 j Sol) S P = Inr False))
       \<and> (main_checks S Re c P Costs Sol = Inr NotMinimal
            \<longleftrightarrow> verify_costs Sol Costs c = Inr True
              \<and> verify_covering_requirement Re Sol S P = Inr True
              \<and> (\<exists>j \<in> set Sol. verify_covering_requirement Re (remove1 j Sol) S P = Inr True))"
proof -
  note v = verify_minimal_value [OF ids known, of P]
  note r = removals_return [OF ids known, of P]
  from v have a: "verify_minimal Re Sol S P = Inr False
      \<longleftrightarrow> (\<exists>j \<in> set Sol. verify_covering_requirement Re (remove1 j Sol) S P = Inr True)"
    by simp
  have "(\<forall>j \<in> set Sol. verify_covering_requirement Re (remove1 j Sol) S P = Inr False)
      \<longleftrightarrow> \<not> (\<exists>j \<in> set Sol. verify_covering_requirement Re (remove1 j Sol) S P = Inr True)"
  proof
    assume h: "\<forall>j \<in> set Sol. verify_covering_requirement Re (remove1 j Sol) S P = Inr False"
    show "\<not> (\<exists>j \<in> set Sol. verify_covering_requirement Re (remove1 j Sol) S P = Inr True)"
    proof
      assume "\<exists>j \<in> set Sol. verify_covering_requirement Re (remove1 j Sol) S P = Inr True"
      then obtain j where "j \<in> set Sol"
        "verify_covering_requirement Re (remove1 j Sol) S P = Inr True" by auto
      with h show False by auto
    qed
  next
    assume h: "\<not> (\<exists>j \<in> set Sol. verify_covering_requirement Re (remove1 j Sol) S P = Inr True)"
    show "\<forall>j \<in> set Sol. verify_covering_requirement Re (remove1 j Sol) S P = Inr False"
    proof
      fix j
      assume j: "j \<in> set Sol"
      with r obtain b where b: "verify_covering_requirement Re (remove1 j Sol) S P = Inr b"
        by auto
      with h j have "\<not> b" by auto
      with b show "verify_covering_requirement Re (remove1 j Sol) S P = Inr False" by simp
    qed
  qed
  with v have b: "verify_minimal Re Sol S P = Inr True
      \<longleftrightarrow> (\<forall>j \<in> set Sol. verify_covering_requirement Re (remove1 j Sol) S P = Inr False)"
    by simp
  have "main_checks S Re c P Costs Sol = Inr NotMinimal
      \<longleftrightarrow> verify_costs Sol Costs c = Inr True
        \<and> verify_covering_requirement Re Sol S P = Inr True
        \<and> verify_minimal Re Sol S P = Inr False"
    using verdicts_distinct_min
    by (cases "verify_costs Sol Costs c"; cases "verify_covering_requirement Re Sol S P";
        cases "verify_minimal Re Sol S P") (auto simp: main_checks_def)
  with a have c: "main_checks S Re c P Costs Sol = Inr NotMinimal
      \<longleftrightarrow> verify_costs Sol Costs c = Inr True
        \<and> verify_covering_requirement Re Sol S P = Inr True
        \<and> (\<exists>j \<in> set Sol. verify_covering_requirement Re (remove1 j Sol) S P = Inr True)"
    by simp
  from a b c show ?thesis by blast
qed

lemma keys_zip_upto: "int (length xs) = n \<Longrightarrow> keys (zip [1..n] xs) = [1..n]"
  by (auto simp: keys_def)

lemma read_instance_keys:
  assumes "read_instance lines = Inr (E, S, r, c, num_E, num_S, P)"
  shows "keys S = [1..num_S]" and "keys c = [1..num_S]" and "keys r = [1..num_E]"
  using assms unfolding read_instance_def Let_def
  by (auto split: list.splits option.splits if_splits simp: keys_zip_upto)

lemma verify_costs_returns:
  assumes "set Sol \<subseteq> set (keys c)"
  shows "\<exists>b. verify_costs Sol Costs c = Inr b"
  using sum_costs_ok [OF assms, of 0] by (auto simp: verify_costs_def)

lemma verify_costs_raises:
  assumes "j \<in> set Sol" and "j \<notin> set (keys c)"
  shows "verify_costs Sol Costs c = Inl KeyError"
  using sum_costs_bad [OF assms, of 0] by (simp add: verify_costs_def)

lemma main_checks_returns:
  assumes cst: "set Sol \<subseteq> set (keys c)" and ids: "set Sol \<subseteq> set (keys S)"
      and known: "elements_known Re S Sol"
  shows "\<exists>v. main_checks S Re c P Costs Sol = Inr v"
proof -
  from verify_costs_returns [OF cst] obtain b1 where b1: "verify_costs Sol Costs c = Inr b1"
    by blast
  from covering_returns [OF ids known] obtain b2 where
    b2: "verify_covering_requirement Re Sol S P = Inr b2" by blast
  note b3 = verify_minimal_value [OF ids known, of P]
  from b1 b2 b3 show ?thesis by (auto simp: main_checks_def)
qed

text \<open>
  C9, as amended: on an instance that \<open>read_instance\<close> returned, when every set id of the
  solution lies in 1..num_S and every element id held by a selected set lies in 1..num_E, the
  cost check, the covering check, the minimality check and the whole certifier return without
  an exception; a solution with a set id outside 1..num_S makes the cost check, and with it
  the certifier, end in KeyError, which is neither the "wrong format" report nor a verdict.
\<close>

theorem lookups_succeed_in_range:
  assumes inst: "read_instance lines = Inr (E, S, r, c, num_E, num_S, P)"
  shows "((\<forall>j \<in> set Sets. 1 \<le> j \<and> j \<le> num_S)
          \<and> (\<forall>j \<in> set Sets. \<forall>e \<in> set (members_of S j). 1 \<le> e \<and> e \<le> num_E)
          \<longrightarrow> (\<exists>b. verify_costs Sets Costs c = Inr b)
            \<and> (\<exists>b. verify_covering_requirement r Sets S P = Inr b)
            \<and> (\<exists>b. verify_minimal r Sets S P = Inr b)
            \<and> (\<exists>v. main_checks S r c P Costs Sets = Inr v))
       \<and> ((\<exists>j \<in> set Sets. j < 1 \<or> num_S < j)
          \<longrightarrow> verify_costs Sets Costs c = Inl KeyError
            \<and> main_checks S r c P Costs Sets = Inl KeyError)"
proof (intro conjI impI)
  note k = read_instance_keys [OF inst]
  assume h: "(\<forall>j \<in> set Sets. 1 \<le> j \<and> j \<le> num_S)
          \<and> (\<forall>j \<in> set Sets. \<forall>e \<in> set (members_of S j). 1 \<le> e \<and> e \<le> num_E)"
  from h k have cst: "set Sets \<subseteq> set (keys c)" by auto
  from h k have ids: "set Sets \<subseteq> set (keys S)" by auto
  from h k have known: "elements_known r S Sets" by (auto simp: elements_known_def)
  show "\<exists>b. verify_costs Sets Costs c = Inr b" using cst by (rule verify_costs_returns)
  show "\<exists>b. verify_covering_requirement r Sets S P = Inr b"
    using ids known by (rule covering_returns)
  show "\<exists>b. verify_minimal r Sets S P = Inr b"
    using verify_minimal_value [OF ids known, of P] by simp
  show "\<exists>v. main_checks S r c P Costs Sets = Inr v"
    using cst ids known by (rule main_checks_returns)
next
  note k = read_instance_keys [OF inst]
  assume "\<exists>j \<in> set Sets. j < 1 \<or> num_S < j"
  then obtain j where j: "j \<in> set Sets" and "j < 1 \<or> num_S < j" by auto
  with k have "j \<notin> set (keys c)" by auto
  with j have v: "verify_costs Sets Costs c = Inl KeyError" by (rule verify_costs_raises)
  then show "verify_costs Sets Costs c = Inl KeyError" .
  from v show "main_checks S r c P Costs Sets = Inl KeyError" by (simp add: main_checks_def)
qed

lemma spec_inst:
  "read_instance [[Some 3, Some 2, Some 2], [Some 1, Some 1, Some 1], [Some 5, Some 3],
       [Some 1, Some 2], [Some 2, Some 3]]
     = Inr ([(1, 1), (2, 2), (3, 3)], [(1, [1, 2]), (2, [2, 3])], [(1, 1), (2, 1), (3, 1)],
            [(1, 5), (2, 3)], 3, 2, 2)"
  by code_simp

lemma spec_ids: "set [1, 2] \<subseteq> set (keys [(1::int, [1::int, 2]), (2, [2, 3])])"
  by (simp add: keys_def)

lemma spec_ids2: "set [2] \<subseteq> set (keys [(1::int, [1::int, 2]), (2, [2, 3])])"
  by (simp add: keys_def)

lemma spec_known:
  "elements_known [(1, 1), (2, 1), (3, 1)] [(1, [1, 2]), (2, [2, 3])] [1, 2]"
  by (simp add: elements_known_def members_of_def keys_def)

lemma spec_known2:
  "elements_known [(1, 1), (2, 1), (3, 1)] [(1, [1, 2]), (2, [2, 3])] [2]"
  by (simp add: elements_known_def members_of_def keys_def)

lemma spec_dsol: "distinct [1::int, 2]"
  by simp

lemma spec_dmem: "\<forall>j \<in> set [1, 2]. distinct (members_of [(1, [1, 2]), (2, [2, 3])] j)"
  by (simp add: members_of_def)

lemma spec_pos: "\<forall>(e, q) \<in> set [(1::int, 1::int), (2, 1), (3, 1)]. 0 < q"
  by simp

lemma spec_count: "spec_satisfied_count [(1, 1), (2, 1), (3, 1)] [(1, [1, 2]), (2, [2, 3])] [1, 2] = 3"
  by code_simp

lemma spec_cov1: "cov_loop [(1, [1, 2]), (2, [2, 3])] [1] [] = Inr [(1, 1), (2, 1)]"
  by code_simp

text \<open>
  The specification's instance: from the solution [1], adding set 2 and removing set 1.
\<close>

theorem coverage_monotone_witness:
  "cov_loop [(1, [1, 2]), (2, [2, 3])] [1] [] = Inr [(1, 1), (2, 1)]
   \<and> (\<exists>cov'. cov_loop [(1, [1, 2]), (2, [2, 3])] [1, 2] [] = Inr cov'
          \<and> (\<forall>e. counter_get [(1, 1), (2, 1)] e \<le> counter_get cov' e))
   \<and> (\<exists>cov'. cov_loop [(1, [1, 2]), (2, [2, 3])] [] [] = Inr cov'
          \<and> (\<forall>e. counter_get cov' e \<le> counter_get [(1, 1), (2, 1)] e))"
proof -
  note inst = coverage_monotone [OF spec_cov1]
  from inst have "\<forall>j n. j \<in> set (keys [(1::int, [1::int, 2]), (2, [2, 3])]) \<longrightarrow>
      (\<exists>cov'. cov_loop [(1, [1, 2]), (2, [2, 3])] (take n [1] @ j # drop n [1]) [] = Inr cov'
         \<and> (\<forall>e. counter_get [(1, 1), (2, 1)] e \<le> counter_get cov' e))"
    by (rule conjunct1)
  then have "2 \<in> set (keys [(1::int, [1::int, 2]), (2, [2, 3])]) \<longrightarrow>
      (\<exists>cov'. cov_loop [(1, [1, 2]), (2, [2, 3])] (take 1 [1] @ 2 # drop 1 [1]) [] = Inr cov'
         \<and> (\<forall>e. counter_get [(1, 1), (2, 1)] e \<le> counter_get cov' e))"
    by blast
  moreover have "2 \<in> set (keys [(1::int, [1::int, 2]), (2, [2, 3])])" by (simp add: keys_def)
  moreover have "take 1 [1::int] @ 2 # drop 1 [1] = [1, 2]" by simp
  ultimately have a: "\<exists>cov'. cov_loop [(1, [1, 2]), (2, [2, 3])] [1, 2] [] = Inr cov'
          \<and> (\<forall>e. counter_get [(1, 1), (2, 1)] e \<le> counter_get cov' e)"
    by simp
  from inst have "\<forall>i \<in> set [1].
      \<exists>cov'. cov_loop [(1, [1, 2]), (2, [2, 3])] (remove1 i [1]) [] = Inr cov'
         \<and> (\<forall>e. counter_get cov' e \<le> counter_get [(1, 1), (2, 1)] e)"
    by (rule conjunct2)
  then have b: "\<exists>cov'. cov_loop [(1, [1, 2]), (2, [2, 3])] [] [] = Inr cov'
          \<and> (\<forall>e. counter_get cov' e \<le> counter_get [(1, 1), (2, 1)] e)"
    by simp
  from spec_cov1 a b show ?thesis by blast
qed

text \<open>
  The specification's instance with both sets selected: three satisfied elements, so the check
  passes at thresholds 2 and 3 and fails at threshold 4.
\<close>

theorem covering_check_counts_witness:
  "spec_satisfied_count [(1, 1), (2, 1), (3, 1)] [(1, [1, 2]), (2, [2, 3])] [1, 2] = 3
   \<and> verify_covering_requirement [(1, 1), (2, 1), (3, 1)] [1, 2] [(1, [1, 2]), (2, [2, 3])] 2
       = Inr True
   \<and> verify_covering_requirement [(1, 1), (2, 1), (3, 1)] [1, 2] [(1, [1, 2]), (2, [2, 3])] 3
       = Inr True
   \<and> verify_covering_requirement [(1, 1), (2, 1), (3, 1)] [1, 2] [(1, [1, 2]), (2, [2, 3])] 4
       = Inr False"
proof -
  from covering_check_counts [OF spec_pos spec_ids spec_known spec_dsol spec_dmem, of 2]
  have a: "verify_covering_requirement [(1, 1), (2, 1), (3, 1)] [1, 2] [(1, [1, 2]), (2, [2, 3])] 2
       = Inr True"
    unfolding spec_count by simp
  from covering_check_counts [OF spec_pos spec_ids spec_known spec_dsol spec_dmem, of 3]
  have b: "verify_covering_requirement [(1, 1), (2, 1), (3, 1)] [1, 2] [(1, [1, 2]), (2, [2, 3])] 3
       = Inr True"
    unfolding spec_count by simp
  from covering_check_counts [OF spec_pos spec_ids spec_known spec_dsol spec_dmem, of 4]
  have c: "verify_covering_requirement [(1, 1), (2, 1), (3, 1)] [1, 2] [(1, [1, 2]), (2, [2, 3])] 4
       = Inr False"
    unfolding spec_count by simp
  from spec_count a b c show ?thesis by blast
qed

lemma bad_inst:
  "read_instance [[Some 1, Some 1, Some 1], [Some 1], [Some 5], [Some 1, Some 2]]
     = Inr ([(1, 1)], [(1, [1, 2])], [(1, 1)], [(1, 5)], 1, 1, 1)"
  by code_simp

lemma repeated_member_inst:
  "read_instance [[Some 1, Some 1, Some 1], [Some 2], [Some 5], [Some 1, Some 1]]
     = Inr ([(1, 1)], [(1, [1, 1])], [(1, 2)], [(1, 5)], 1, 1, 1)"
  by code_simp

lemma repeated_set_inst:
  "read_instance [[Some 1, Some 1, Some 1], [Some 2], [Some 5], [Some 1]]
     = Inr ([(1, 1)], [(1, [1])], [(1, 2)], [(1, 5)], 1, 1, 1)"
  by code_simp

text \<open>
  C2 as stated fails on three instances that are read without complaint, each with a positive
  requirement and a solution of valid set ids. In "1 1 1 / 1 / 5 / 1 2" with solution [1] one
  element is satisfied at threshold 1, yet \<open>Re[2]\<close> raises KeyError. In
  "1 1 1 / 2 / 5 / 1 1" with solution [1] one selected set contains element 1, whose
  requirement is 2, so no element is satisfied at threshold 1, yet the counter holds 2 and the
  check passes. In "1 1 1 / 2 / 5 / 1" with solution [1, 1] again one selected set contains
  element 1, yet the counter holds 2 and the check passes.
\<close>

theorem covering_check_counts_counterexample:
  "read_instance [[Some 1, Some 1, Some 1], [Some 1], [Some 5], [Some 1, Some 2]]
     = Inr ([(1, 1)], [(1, [1, 2])], [(1, 1)], [(1, 5)], 1, 1, 1)
   \<and> (0::int) < 1
   \<and> set [1] \<subseteq> set (keys [(1::int, [1::int, 2])])
   \<and> spec_satisfied_count [(1, 1)] [(1, [1, 2])] [1] = 1
   \<and> verify_covering_requirement [(1, 1)] [1] [(1, [1, 2])] 1 = Inl KeyError
   \<and> read_instance [[Some 1, Some 1, Some 1], [Some 2], [Some 5], [Some 1, Some 1]]
     = Inr ([(1, 1)], [(1, [1, 1])], [(1, 2)], [(1, 5)], 1, 1, 1)
   \<and> (0::int) < 2
   \<and> set [1] \<subseteq> set (keys [(1::int, [1::int, 1])])
   \<and> spec_coverage [(1, [1, 1])] [1] 1 = 1
   \<and> cov_loop [(1, [1, 1])] [1] [] = Inr [(1, 2)]
   \<and> spec_satisfied_count [(1, 2)] [(1, [1, 1])] [1] = 0
   \<and> verify_covering_requirement [(1, 2)] [1] [(1, [1, 1])] 1 = Inr True
   \<and> read_instance [[Some 1, Some 1, Some 1], [Some 2], [Some 5], [Some 1]]
     = Inr ([(1, 1)], [(1, [1])], [(1, 2)], [(1, 5)], 1, 1, 1)
   \<and> set [1, 1] \<subseteq> set (keys [(1::int, [1::int])])
   \<and> spec_coverage [(1, [1])] [1, 1] 1 = 1
   \<and> cov_loop [(1, [1])] [1, 1] [] = Inr [(1, 2)]
   \<and> spec_satisfied_count [(1, 2)] [(1, [1])] [1, 1] = 0
   \<and> verify_covering_requirement [(1, 2)] [1, 1] [(1, [1])] 1 = Inr True"
proof -
  have a1: "(0::int) < 1" by simp
  have a2: "set [1] \<subseteq> set (keys [(1::int, [1::int, 2])])" by (simp add: keys_def)
  have a3: "spec_satisfied_count [(1, 1)] [(1, [1, 2])] [1] = 1" by code_simp
  have a4: "verify_covering_requirement [(1, 1)] [1] [(1, [1, 2])] 1 = Inl KeyError" by code_simp
  have b1: "(0::int) < 2" by simp
  have b2: "set [1] \<subseteq> set (keys [(1::int, [1::int, 1])])" by (simp add: keys_def)
  have b3: "spec_coverage [(1, [1, 1])] [1] 1 = 1" by code_simp
  have b4: "cov_loop [(1, [1, 1])] [1] [] = Inr [(1, 2)]" by code_simp
  have b5: "spec_satisfied_count [(1, 2)] [(1, [1, 1])] [1] = 0" by code_simp
  have b6: "verify_covering_requirement [(1, 2)] [1] [(1, [1, 1])] 1 = Inr True" by code_simp
  have c2: "set [1, 1] \<subseteq> set (keys [(1::int, [1::int])])" by (simp add: keys_def)
  have c3: "spec_coverage [(1, [1])] [1, 1] 1 = 1" by code_simp
  have c4: "cov_loop [(1, [1])] [1, 1] [] = Inr [(1, 2)]" by code_simp
  have c5: "spec_satisfied_count [(1, 2)] [(1, [1])] [1, 1] = 0" by code_simp
  have c6: "verify_covering_requirement [(1, 2)] [1, 1] [(1, [1])] 1 = Inr True" by code_simp
  from bad_inst a1 a2 a3 a4 have A:
    "read_instance [[Some 1, Some 1, Some 1], [Some 1], [Some 5], [Some 1, Some 2]]
       = Inr ([(1, 1)], [(1, [1, 2])], [(1, 1)], [(1, 5)], 1, 1, 1)
     \<and> (0::int) < 1
     \<and> set [1] \<subseteq> set (keys [(1::int, [1::int, 2])])
     \<and> spec_satisfied_count [(1, 1)] [(1, [1, 2])] [1] = 1
     \<and> verify_covering_requirement [(1, 1)] [1] [(1, [1, 2])] 1 = Inl KeyError"
    by (intro conjI)
  from repeated_member_inst b1 b2 b3 b4 b5 b6 have B:
    "read_instance [[Some 1, Some 1, Some 1], [Some 2], [Some 5], [Some 1, Some 1]]
       = Inr ([(1, 1)], [(1, [1, 1])], [(1, 2)], [(1, 5)], 1, 1, 1)
     \<and> (0::int) < 2
     \<and> set [1] \<subseteq> set (keys [(1::int, [1::int, 1])])
     \<and> spec_coverage [(1, [1, 1])] [1] 1 = 1
     \<and> cov_loop [(1, [1, 1])] [1] [] = Inr [(1, 2)]
     \<and> spec_satisfied_count [(1, 2)] [(1, [1, 1])] [1] = 0
     \<and> verify_covering_requirement [(1, 2)] [1] [(1, [1, 1])] 1 = Inr True"
    by (intro conjI)
  from repeated_set_inst c2 c3 c4 c5 c6 have C:
    "read_instance [[Some 1, Some 1, Some 1], [Some 2], [Some 5], [Some 1]]
       = Inr ([(1, 1)], [(1, [1])], [(1, 2)], [(1, 5)], 1, 1, 1)
     \<and> set [1, 1] \<subseteq> set (keys [(1::int, [1::int])])
     \<and> spec_coverage [(1, [1])] [1, 1] 1 = 1
     \<and> cov_loop [(1, [1])] [1, 1] [] = Inr [(1, 2)]
     \<and> spec_satisfied_count [(1, 2)] [(1, [1])] [1, 1] = 0
     \<and> verify_covering_requirement [(1, 2)] [1, 1] [(1, [1])] 1 = Inr True"
    by (intro conjI)
  from A B C show ?thesis by (simp only: conj_assoc simp_thms)
qed

text \<open>
  The specification's instance: [1, 2] is not minimal (removing set 1 still covers), [2] is.
\<close>

theorem minimality_single_removal_witness:
  "verify_minimal [(1, 1), (2, 1), (3, 1)] [1, 2] [(1, [1, 2]), (2, [2, 3])] 2 = Inr False
   \<and> verify_covering_requirement [(1, 1), (2, 1), (3, 1)] (remove1 1 [1, 2])
        [(1, [1, 2]), (2, [2, 3])] 2 = Inr True
   \<and> verify_minimal [(1, 1), (2, 1), (3, 1)] [2] [(1, [1, 2]), (2, [2, 3])] 2 = Inr True
   \<and> verify_covering_requirement [(1, 1), (2, 1), (3, 1)] (remove1 2 [2])
        [(1, [1, 2]), (2, [2, 3])] 2 = Inr False"
proof -
  have r1: "verify_covering_requirement [(1, 1), (2, 1), (3, 1)] (remove1 1 [1, 2])
        [(1, [1, 2]), (2, [2, 3])] 2 = Inr True" by code_simp
  have r2: "verify_covering_requirement [(1, 1), (2, 1), (3, 1)] (remove1 2 [2])
        [(1, [1, 2]), (2, [2, 3])] 2 = Inr False" by code_simp
  note i1 = minimality_single_removal [OF spec_ids spec_known, of 2]
  from i1 have "verify_minimal [(1, 1), (2, 1), (3, 1)] [1, 2] [(1, [1, 2]), (2, [2, 3])] 2 = Inr False
      \<longleftrightarrow> (\<exists>j \<in> set [1, 2]. verify_covering_requirement [(1, 1), (2, 1), (3, 1)]
             (remove1 j [1, 2]) [(1, [1, 2]), (2, [2, 3])] 2 = Inr True)"
    by (rule conjunct1)
  moreover from r1 have "\<exists>j \<in> set [1, 2]. verify_covering_requirement [(1, 1), (2, 1), (3, 1)]
             (remove1 j [1, 2]) [(1, [1, 2]), (2, [2, 3])] 2 = Inr True"
    by (intro bexI [of _ 1]) simp_all
  ultimately have a: "verify_minimal [(1, 1), (2, 1), (3, 1)] [1, 2] [(1, [1, 2]), (2, [2, 3])] 2
      = Inr False" by (rule iffD2)
  note i2 = minimality_single_removal [OF spec_ids2 spec_known2, of 2]
  from i2 have "verify_minimal [(1, 1), (2, 1), (3, 1)] [2] [(1, [1, 2]), (2, [2, 3])] 2 = Inr True
      \<longleftrightarrow> (\<forall>j \<in> set [2]. verify_covering_requirement [(1, 1), (2, 1), (3, 1)]
             (remove1 j [2]) [(1, [1, 2]), (2, [2, 3])] 2 = Inr False)"
    by blast
  moreover from r2 have "\<forall>j \<in> set [2]. verify_covering_requirement [(1, 1), (2, 1), (3, 1)]
             (remove1 j [2]) [(1, [1, 2]), (2, [2, 3])] 2 = Inr False"
    by simp
  ultimately have b: "verify_minimal [(1, 1), (2, 1), (3, 1)] [2] [(1, [1, 2]), (2, [2, 3])] 2
      = Inr True" by (rule iffD2)
  from a r1 b r2 show ?thesis by blast
qed

text \<open>
  C3 as stated fails when a selected set holds an element id without a requirement: in the
  instance "1 2 1 / 1 / 5 3 / 1 2 / 1" with solution [2, 1], removing set 1 leaves [2], which
  passes the covering check, yet the minimality check first tries [1], where
  \<open>Re[2]\<close> raises KeyError, and returns no verdict.
\<close>

theorem minimality_unknown_element_counterexample:
  "read_instance [[Some 1, Some 2, Some 1], [Some 1], [Some 5, Some 3], [Some 1, Some 2], [Some 1]]
     = Inr ([(1, 1)], [(1, [1, 2]), (2, [1])], [(1, 1)], [(1, 5), (2, 3)], 1, 2, 1)
   \<and> set [2, 1] \<subseteq> set (keys [(1::int, [1::int, 2]), (2, [1])])
   \<and> 1 \<in> set [2, 1::int]
   \<and> verify_covering_requirement [(1, 1)] (remove1 1 [2, 1]) [(1, [1, 2]), (2, [1])] 1 = Inr True
   \<and> verify_minimal [(1, 1)] [2, 1] [(1, [1, 2]), (2, [1])] 1 = Inl KeyError"
proof -
  have i: "read_instance [[Some 1, Some 2, Some 1], [Some 1], [Some 5, Some 3], [Some 1, Some 2], [Some 1]]
     = Inr ([(1, 1)], [(1, [1, 2]), (2, [1])], [(1, 1)], [(1, 5), (2, 3)], 1, 2, 1)"
    by code_simp
  have a: "set [2, 1] \<subseteq> set (keys [(1::int, [1::int, 2]), (2, [1])])" by (simp add: keys_def)
  have b: "1 \<in> set [2, 1::int]" by simp
  have c: "verify_covering_requirement [(1, 1)] (remove1 1 [2, 1]) [(1, [1, 2]), (2, [1])] 1
      = Inr True" by code_simp
  have d: "verify_minimal [(1, 1)] [2, 1] [(1, [1, 2]), (2, [1])] 1 = Inl KeyError" by code_simp
  from i a b c d show ?thesis by blast
qed

text \<open>
  The specification's instance: solution [2] returns, solution [3] raises KeyError.
\<close>

theorem lookups_succeed_in_range_witness:
  "(\<exists>b. verify_costs [2] 3 [(1, 5), (2, 3)] = Inr b)
   \<and> (\<exists>b. verify_covering_requirement [(1, 1), (2, 1), (3, 1)] [2] [(1, [1, 2]), (2, [2, 3])] 2 = Inr b)
   \<and> (\<exists>v. main_checks [(1, [1, 2]), (2, [2, 3])] [(1, 1), (2, 1), (3, 1)] [(1, 5), (2, 3)] 2 3 [2]
         = Inr v)
   \<and> verify_costs [3] 3 [(1, 5), (2, 3)] = Inl KeyError
   \<and> main_checks [(1, [1, 2]), (2, [2, 3])] [(1, 1), (2, 1), (3, 1)] [(1, 5), (2, 3)] 2 3 [3]
         = Inl KeyError"
proof -
  note i1 = lookups_succeed_in_range [OF spec_inst, of "[2]" 3]
  have h1: "(\<forall>j \<in> set [2::int]. 1 \<le> j \<and> j \<le> 2)
     \<and> (\<forall>j \<in> set [2]. \<forall>e \<in> set (members_of [(1, [1, 2]), (2, [2, 3])] j). 1 \<le> e \<and> e \<le> 3)"
    by (simp add: members_of_def)
  from i1 h1 have a: "(\<exists>b. verify_costs [2] 3 [(1, 5), (2, 3)] = Inr b)
   \<and> (\<exists>b. verify_covering_requirement [(1, 1), (2, 1), (3, 1)] [2] [(1, [1, 2]), (2, [2, 3])] 2 = Inr b)
   \<and> (\<exists>v. main_checks [(1, [1, 2]), (2, [2, 3])] [(1, 1), (2, 1), (3, 1)] [(1, 5), (2, 3)] 2 3 [2]
         = Inr v)"
    by blast
  note i2 = lookups_succeed_in_range [OF spec_inst, of "[3]" 3]
  have h2: "\<exists>j \<in> set [3::int]. j < 1 \<or> 2 < j" by simp
  from i2 h2 have b: "verify_costs [3] 3 [(1, 5), (2, 3)] = Inl KeyError
   \<and> main_checks [(1, [1, 2]), (2, [2, 3])] [(1, 1), (2, 1), (3, 1)] [(1, 5), (2, 3)] 2 3 [3]
         = Inl KeyError"
    by blast
  from a b show ?thesis by blast
qed

text \<open>
  C9 as stated fails: in the instance "1 1 1 / 1 / 5 / 1 2" the solution [1] at cost 5 has its
  only set id in 1..num_S and passes the cost check, yet the lookup \<open>Re[2]\<close> in the
  covering check raises KeyError and so does the certifier.
\<close>

theorem lookups_unknown_element_counterexample:
  "read_instance [[Some 1, Some 1, Some 1], [Some 1], [Some 5], [Some 1, Some 2]]
     = Inr ([(1, 1)], [(1, [1, 2])], [(1, 1)], [(1, 5)], 1, 1, 1)
   \<and> (1::int) \<le> 1
   \<and> verify_costs [1] 5 [(1, 5)] = Inr True
   \<and> verify_covering_requirement [(1, 1)] [1] [(1, [1, 2])] 1 = Inl KeyError
   \<and> main_checks [(1, [1, 2])] [(1, 1)] [(1, 5)] 1 5 [1] = Inl KeyError"
proof -
  have a: "verify_costs [1] 5 [(1, 5)] = Inr True" by code_simp
  have b: "verify_covering_requirement [(1, 1)] [1] [(1, [1, 2])] 1 = Inl KeyError" by code_simp
  have c: "main_checks [(1, [1, 2])] [(1, 1)] [(1, 5)] 1 5 [1] = Inl KeyError" by code_simp
  have d: "(1::int) \<le> 1" by simp
  from bad_inst d a b c show ?thesis by blast
qed

lemma read_instance_keys_E:
  assumes "read_instance lines = Inr (E, S, r, c, num_E, num_S, P)"
  shows "keys E = [1..num_E]"
  using assms unfolding read_instance_def Let_def
  by (auto split: list.splits option.splits if_splits simp: keys_def)

lemma keys_LpVariable_dict: "keys (LpVariable_dict fmt indexs lo up ct) = indexs"
  by (simp add: LpVariable_dict_def keys_def comp_def)

lemma map_of_LpVariable_dict:
  "i \<in> set indexs \<Longrightarrow>
   map_of (LpVariable_dict fmt indexs lo up ct) i
     = Some \<lparr>name = fmt i, lowBound = lo, upBound = up, cat = ct\<rparr>"
  by (induction indexs) (auto simp: LpVariable_dict_def)

lemma getitem_LpVariable_dict:
  "i \<in> set indexs \<Longrightarrow>
   getitem (LpVariable_dict fmt indexs 0 1 LpInteger) i = Inr (binary_variable (fmt i))"
  by (simp add: getitem_def map_of_LpVariable_dict binary_variable_def)

lemma getitem_lookup:
  "i \<in> set (keys d) \<Longrightarrow> getitem d i = Inr (the (map_of d i))"
  using getitem_in [of i d] by auto

lemma objective_terms_ok:
  "set js \<subseteq> set (keys c) \<Longrightarrow> set js \<subseteq> set indexs \<Longrightarrow>
   objective_terms c (LpVariable_dict X indexs 0 1 LpInteger) js
     = Inr (map (\<lambda>j. scale (cost_of c j) (var_expr (binary_variable (X j)))) js)"
proof (induction js)
  case Nil
  show ?case by simp
next
  case (Cons j js)
  from Cons.prems have j: "j \<in> set (keys c)" "j \<in> set indexs" by auto
  from getitem_in [OF j(1)] obtain v where v: "getitem c j = Inr v" "map_of c j = Some v" by auto
  from v(2) have cv: "cost_of c j = v" by (simp add: cost_of_def)
  from Cons.prems have "set js \<subseteq> set (keys c)" "set js \<subseteq> set indexs" by auto
  from Cons.IH [OF this] v(1) cv getitem_LpVariable_dict [OF j(2), of X]
  show ?case by simp
qed

lemma satisfied_terms_ok:
  "set js \<subseteq> set indexs \<Longrightarrow>
   satisfied_terms (LpVariable_dict Y indexs 0 1 LpInteger) js
     = Inr (map (\<lambda>e. var_expr (binary_variable (Y e))) js)"
proof (induction js)
  case Nil
  show ?case by simp
next
  case (Cons j js)
  from Cons.prems have j: "j \<in> set indexs" and rest: "set js \<subseteq> set indexs" by auto
  from Cons.IH [OF rest] getitem_LpVariable_dict [OF j, of Y]
  show ?case by simp
qed

lemma cover_terms_ok:
  "set js \<subseteq> set (keys S) \<Longrightarrow> set js \<subseteq> set indexs \<Longrightarrow>
   cover_terms S (LpVariable_dict X indexs 0 1 LpInteger) i js
     = Inr (map (\<lambda>j. var_expr (binary_variable (X j)))
              (filter (\<lambda>j. i \<in> set (members_of S j)) js))"
proof (induction js)
  case Nil
  show ?case by simp
next
  case (Cons j js)
  from Cons.prems have j: "j \<in> set (keys S)" "j \<in> set indexs" by auto
  from getitem_in [OF j(1)] obtain m where m: "getitem S j = Inr m" "map_of S j = Some m" by auto
  from m(2) have mm: "members_of S j = m" by (rule members_of_Some)
  from Cons.prems have "set js \<subseteq> set (keys S)" "set js \<subseteq> set indexs" by auto
  from Cons.IH [OF this] m(1) mm getitem_LpVariable_dict [OF j(2), of X]
  show ?case by simp
qed

lemma eval_var_expr: "eval_affine v (var_expr (binary_variable n)) = v n"
  by (simp add: eval_affine_def var_expr_def binary_variable_def)

lemma eval_add: "eval_affine v (add a b) = eval_affine v a + eval_affine v b"
  by (simp add: eval_affine_def add_def)

lemma sum_list_scale:
  "sum_list (map (\<lambda>(n, q). q * v n) (map (\<lambda>(n, q). (n, k * q)) ts))
     = (k::int) * sum_list (map (\<lambda>(n, q). q * v n) ts)"
proof (induction ts)
  case Nil
  show ?case by simp
next
  case (Cons t ts)
  obtain n q where t: "t = (n, q)" by (cases t)
  from Cons.IH show ?case by (simp add: t distrib_left mult.assoc)
qed

lemma eval_scale: "eval_affine v (scale k a) = k * eval_affine v a"
  by (simp add: eval_affine_def scale_def sum_list_scale distrib_left del: map_map)

lemma eval_const: "eval_affine v \<lparr>terms = [], constant_term = n\<rparr> = n"
  by (simp add: eval_affine_def)

lemma eval_foldl_add:
  "eval_affine v (foldl add a as) = eval_affine v a + sum_list (map (eval_affine v) as)"
  by (induction as arbitrary: a) (simp_all add: eval_add)

lemma number_value_py_sum: "number_value v (py_sum as) = sum_list (map (eval_affine v) as)"
  by (cases as) (simp_all add: eval_foldl_add)

lemma eval_py_sub:
  "eval_affine v (py_sub n e) = number_value v n - eval_affine v e"
  by (cases n) (simp_all add: eval_add eval_scale eval_const)

lemma py_sum_nonempty:
  assumes "as \<noteq> []"
  shows "\<exists>a. py_sum as = PyExpr a \<and> (\<forall>v. eval_affine v a = sum_list (map (eval_affine v) as))"
proof -
  from assms obtain b bs where e: "as = b # bs" by (cases as) auto
  have "\<forall>v. eval_affine v (foldl add b bs) = sum_list (map (eval_affine v) as)"
    by (simp add: e eval_foldl_add)
  then show ?thesis by (simp add: e)
qed

lemma holds_py_ge:
  "\<exists>k. py_ge (PyExpr a) n = PyConstraint k \<and> (\<forall>v. holds v k \<longleftrightarrow> n \<le> eval_affine v a)"
  by (simp add: holds_def eval_add eval_const)

lemma eval_cover_sum:
  "sum_list (map (eval_affine v) (map (\<lambda>j. var_expr (binary_variable (X j))) js))
     = sum_list (map (\<lambda>j. v (X j)) js)"
  by (simp add: comp_def eval_var_expr)

lemma eval_satisfied_sum:
  "sum_list (map (eval_affine v) (map (\<lambda>e. var_expr (binary_variable (Y e))) es))
     = sum_list (map (\<lambda>e. v (Y e)) es)"
  by (simp add: comp_def eval_var_expr)

lemma eval_objective_sum:
  "sum_list (map (eval_affine v) (map (\<lambda>j. scale (cost_of c j) (var_expr (binary_variable (X j)))) js))
     = sum_list (map (\<lambda>j. cost_of c j * v (X j)) js)"
  by (simp add: comp_def eval_var_expr eval_scale)

lemma element_loop_ok:
  "set js \<subseteq> set (keys r) \<Longrightarrow> set js \<subseteq> set indexs \<Longrightarrow>
   \<exists>ks. element_loop on_bool S r (LpVariable_dict X (keys S) 0 1 LpInteger)
           (LpVariable_dict Y indexs 0 1 LpInteger) js PSMC
         = Inr (PSMC\<lparr>constraints := constraints PSMC @ ks\<rparr>)
     \<and> length ks = length js
     \<and> (\<forall>n < length js. \<forall>v. holds v (ks ! n) \<longleftrightarrow>
           0 \<le> sum_list (map (\<lambda>j. v (X j)) (filter (\<lambda>j. js ! n \<in> set (members_of S j)) (keys S)))
               - requirement_of r (js ! n) * v (Y (js ! n)))"
proof (induction js arbitrary: PSMC)
  case Nil
  show ?case by simp
next
  case (Cons i js)
  let ?x = "LpVariable_dict X (keys S) 0 1 LpInteger"
  let ?y = "LpVariable_dict Y indexs 0 1 LpInteger"
  let ?fl = "filter (\<lambda>j. i \<in> set (members_of S j)) (keys S)"
  from Cons.prems have i: "i \<in> set (keys r)" "i \<in> set indexs" by auto
  from Cons.prems have rest: "set js \<subseteq> set (keys r)" "set js \<subseteq> set indexs" by auto
  have ct: "cover_terms S ?x i (keys S) = Inr (map (\<lambda>j. var_expr (binary_variable (X j))) ?fl)"
    by (rule cover_terms_ok) simp_all
  have gy: "getitem ?y i = Inr (binary_variable (Y i))"
    using i(2) by (rule getitem_LpVariable_dict)
  from getitem_in [OF i(1)] obtain q where q: "getitem r i = Inr q" "map_of r i = Some q" by auto
  from q(2) have rq: "requirement_of r i = q" by (simp add: requirement_of_def)
  let ?a = "py_sub (py_sum (map (\<lambda>j. var_expr (binary_variable (X j))) ?fl))
              (scale q (var_expr (binary_variable (Y i))))"
  from holds_py_ge [of ?a 0] obtain k where
    k: "py_ge (PyExpr ?a) 0 = PyConstraint k" and
    hk: "\<forall>v. holds v k \<longleftrightarrow> 0 \<le> eval_affine v ?a" by blast
  have ev: "\<And>v. eval_affine v ?a = sum_list (map (\<lambda>j. v (X j)) ?fl) - q * v (Y i)"
    by (simp only: eval_py_sub number_value_py_sum eval_cover_sum eval_scale eval_var_expr)
  have step: "element_loop on_bool S r ?x ?y (i # js) PSMC
      = element_loop on_bool S r ?x ?y js (PSMC\<lparr>constraints := constraints PSMC @ [k]\<rparr>)"
    using k by (simp add: ct gy q(1))
  from Cons.IH [OF rest, of "PSMC\<lparr>constraints := constraints PSMC @ [k]\<rparr>"] obtain ks where
    r1: "element_loop on_bool S r ?x ?y js (PSMC\<lparr>constraints := constraints PSMC @ [k]\<rparr>)
      = Inr (PSMC\<lparr>constraints := constraints PSMC @ [k]\<rparr>
               \<lparr>constraints := constraints (PSMC\<lparr>constraints := constraints PSMC @ [k]\<rparr>) @ ks\<rparr>)" and
    r2: "length ks = length js" and
    r3: "\<forall>n < length js. \<forall>v. holds v (ks ! n) \<longleftrightarrow>
           0 \<le> sum_list (map (\<lambda>j. v (X j)) (filter (\<lambda>j. js ! n \<in> set (members_of S j)) (keys S)))
               - requirement_of r (js ! n) * v (Y (js ! n))"
    by blast
  have a: "element_loop on_bool S r ?x ?y (i # js) PSMC
      = Inr (PSMC\<lparr>constraints := constraints PSMC @ (k # ks)\<rparr>)"
    unfolding step r1 by simp
  have b: "length (k # ks) = length (i # js)" using r2 by simp
  have c: "\<forall>n < length (i # js). \<forall>v. holds v ((k # ks) ! n) \<longleftrightarrow>
           0 \<le> sum_list (map (\<lambda>j. v (X j))
                  (filter (\<lambda>j. (i # js) ! n \<in> set (members_of S j)) (keys S)))
               - requirement_of r ((i # js) ! n) * v (Y ((i # js) ! n))"
  proof (intro allI impI)
    fix n v
    assume n: "n < length (i # js)"
    show "holds v ((k # ks) ! n) \<longleftrightarrow>
           0 \<le> sum_list (map (\<lambda>j. v (X j))
                  (filter (\<lambda>j. (i # js) ! n \<in> set (members_of S j)) (keys S)))
               - requirement_of r ((i # js) ! n) * v (Y ((i # js) ! n))"
    proof (cases n)
      case 0
      from hk ev [of v] rq show ?thesis by (simp add: 0)
    next
      case (Suc m)
      with n have "m < length js" by simp
      with r3 show ?thesis by (simp add: Suc)
    qed
  qed
  from a b c show ?case by blast
qed

lemma upto_nonempty: "1 \<le> n \<Longrightarrow> [1..n] \<noteq> []"
  by (simp add: upto.simps)

lemma upto_nth_element: "1 \<le> e \<Longrightarrow> e \<le> n \<Longrightarrow> [1..n] ! (nat e - 1) = e"
proof -
  assume a: "1 \<le> e" "e \<le> n"
  then have "1 + int (nat e - 1) \<le> n" by simp
  then have "[1..n] ! (nat e - 1) = 1 + int (nat e - 1)" by (rule nth_upto)
  with a show ?thesis by simp
qed

text \<open>
  C5: on an instance that \<open>read_instance\<close> returned, with at least one element and one
  set, \<open>create_Instance\<close> returns a minimisation problem with one variable per set id
  1..num_S and one per element id 1..num_E, each an integer variable between 0 and 1; its
  objective evaluates to the sum of cost[j] * x[j] over the sets; it has 1 + num_E
  constraints, the first holding exactly when the sum of the y[e] is at least the threshold,
  and the one added for element e holding exactly when the sum of x[j] over the sets j that
  contain e, minus requirement[e] * y[e], is at least 0. The result does not depend on what
  the library does with an int or a bool.
\<close>

theorem model_builder_program:
  assumes inst: "read_instance lines = Inr (E, S, r, c, num_E, num_S, P)"
      and nE: "1 \<le> num_E" and nS: "1 \<le> num_S"
  shows "\<exists>PSMC x y obj.
      create_Instance on_int on_bool E S r c num_E num_S P = Inr (PSMC, x, y)
    \<and> keys x = [1..num_S]
    \<and> (\<forall>j \<in> set [1..num_S]. getitem x j = Inr (binary_variable (X j)))
    \<and> keys y = [1..num_E]
    \<and> (\<forall>e \<in> set [1..num_E]. getitem y e = Inr (binary_variable (Y e)))
    \<and> sense PSMC = LpMinimize
    \<and> objective PSMC = Some obj
    \<and> (\<forall>v. eval_affine v obj = sum_list (map (\<lambda>j. cost_of c j * v (X j)) [1..num_S]))
    \<and> length (constraints PSMC) = 1 + nat num_E
    \<and> (\<forall>v. holds v (constraints PSMC ! 0)
           \<longleftrightarrow> P \<le> sum_list (map (\<lambda>e. v (Y e)) [1..num_E]))
    \<and> (\<forall>e \<in> set [1..num_E]. \<forall>v. holds v (constraints PSMC ! nat e)
           \<longleftrightarrow> 0 \<le> sum_list (map (\<lambda>j. v (X j))
                      (filter (\<lambda>j. e \<in> set (members_of S j)) [1..num_S]))
                    - requirement_of r e * v (Y e))"
proof -
  note kS = read_instance_keys(1) [OF inst]
  note kc = read_instance_keys(2) [OF inst]
  note kr = read_instance_keys(3) [OF inst]
  note kE = read_instance_keys_E [OF inst]
  let ?x = "LpVariable_dict X [1..num_S] 0 1 LpInteger"
  let ?y = "LpVariable_dict Y [1..num_E] 0 1 LpInteger"
  let ?P0 = "\<lparr>sense = LpMinimize, objective = None, constraints = []\<rparr>"
  let ?cs = "map (\<lambda>j. scale (cost_of c j) (var_expr (binary_variable (X j)))) [1..num_S]"
  let ?ys = "map (\<lambda>e. var_expr (binary_variable (Y e))) [1..num_E]"
  have ot: "objective_terms c ?x [1..num_S] = Inr ?cs"
    by (rule objective_terms_ok) (simp_all add: kc)
  from upto_nonempty [OF nS] have "?cs \<noteq> []" by simp
  from py_sum_nonempty [OF this] obtain obj where
    o1: "py_sum ?cs = PyExpr obj" and
    o2: "\<forall>v. eval_affine v obj = sum_list (map (eval_affine v) ?cs)" by blast
  have o3: "\<forall>v. eval_affine v obj = sum_list (map (\<lambda>j. cost_of c j * v (X j)) [1..num_S])"
    using o2 unfolding eval_objective_sum .
  have st: "satisfied_terms ?y [1..num_E] = Inr ?ys"
    by (rule satisfied_terms_ok) simp
  from upto_nonempty [OF nE] have "?ys \<noteq> []" by simp
  from py_sum_nonempty [OF this] obtain b where
    b1: "py_sum ?ys = PyExpr b" and
    b2: "\<forall>v. eval_affine v b = sum_list (map (eval_affine v) ?ys)" by blast
  have b3: "\<forall>v. eval_affine v b = sum_list (map (\<lambda>e. v (Y e)) [1..num_E])"
    using b2 unfolding eval_satisfied_sum .
  from holds_py_ge [of b P] obtain k0 where
    k1: "py_ge (PyExpr b) P = PyConstraint k0" and
    k2: "\<forall>v. holds v k0 \<longleftrightarrow> P \<le> eval_affine v b" by blast
  let ?P2 = "\<lparr>sense = LpMinimize, objective = Some obj, constraints = [k0]\<rparr>"
  have "set [1..num_E] \<subseteq> set (keys r)" by (simp add: kr)
  moreover have "set [1..num_E] \<subseteq> set [1..num_E]" by simp
  ultimately have "\<exists>ks. element_loop on_bool S r (LpVariable_dict X (keys S) 0 1 LpInteger)
           ?y [1..num_E] ?P2
         = Inr (?P2\<lparr>constraints := constraints ?P2 @ ks\<rparr>)
     \<and> length ks = length [1..num_E]
     \<and> (\<forall>n < length [1..num_E]. \<forall>v. holds v (ks ! n) \<longleftrightarrow>
           0 \<le> sum_list (map (\<lambda>j. v (X j))
                  (filter (\<lambda>j. [1..num_E] ! n \<in> set (members_of S j)) (keys S)))
               - requirement_of r ([1..num_E] ! n) * v (Y ([1..num_E] ! n)))"
    by (rule element_loop_ok)
  then obtain ks where
    e1: "element_loop on_bool S r ?x ?y [1..num_E] ?P2
         = Inr \<lparr>sense = LpMinimize, objective = Some obj, constraints = k0 # ks\<rparr>" and
    e2: "length ks = length [1..num_E]" and
    e3: "\<forall>n < length [1..num_E]. \<forall>v. holds v (ks ! n) \<longleftrightarrow>
           0 \<le> sum_list (map (\<lambda>j. v (X j))
                  (filter (\<lambda>j. [1..num_E] ! n \<in> set (members_of S j)) [1..num_S]))
               - requirement_of r ([1..num_E] ! n) * v (Y ([1..num_E] ! n))"
    by (auto simp: kS)
  let ?P3 = "\<lparr>sense = LpMinimize, objective = Some obj, constraints = k0 # ks\<rparr>"
  have p1: "iadd_number on_int ?P0 (py_sum ?cs)
      = Inr \<lparr>sense = LpMinimize, objective = Some obj, constraints = []\<rparr>"
    unfolding o1 by simp
  have p2: "iadd_compared on_bool \<lparr>sense = LpMinimize, objective = Some obj, constraints = []\<rparr>
      (py_ge (py_sum ?ys) P) = Inr ?P2"
    unfolding b1 k1 by simp
  have run: "create_Instance on_int on_bool E S r c num_E num_S P = Inr (?P3, ?x, ?y)"
    unfolding create_Instance_def Let_def kS kE ot sum.case p1 st p2 e1 ..
  have vx: "\<forall>j \<in> set [1..num_S]. getitem ?x j = Inr (binary_variable (X j))"
    by (intro ballI getitem_LpVariable_dict)
  have vy: "\<forall>e \<in> set [1..num_E]. getitem ?y e = Inr (binary_variable (Y e))"
    by (intro ballI getitem_LpVariable_dict)
  have len: "length (constraints ?P3) = 1 + nat num_E"
    using e2 nE by simp
  have c0: "\<forall>v. holds v (constraints ?P3 ! 0)
      \<longleftrightarrow> P \<le> sum_list (map (\<lambda>e. v (Y e)) [1..num_E])"
    using k2 b3 by simp
  have ce: "\<forall>e \<in> set [1..num_E]. \<forall>v. holds v (constraints ?P3 ! nat e)
           \<longleftrightarrow> 0 \<le> sum_list (map (\<lambda>j. v (X j))
                      (filter (\<lambda>j. e \<in> set (members_of S j)) [1..num_S]))
                    - requirement_of r e * v (Y e)"
  proof (intro ballI allI)
    fix e v
    assume "e \<in> set [1..num_E]"
    then have e: "1 \<le> e" "e \<le> num_E" by simp_all
    then have n: "nat e - 1 < length [1..num_E]" by simp
    from e have nth: "[1..num_E] ! (nat e - 1) = e" by (rule upto_nth_element)
    from e have "(k0 # ks) ! nat e = ks ! (nat e - 1)" by (simp add: nth_Cons')
    with e3 n nth show "holds v (constraints ?P3 ! nat e)
           \<longleftrightarrow> 0 \<le> sum_list (map (\<lambda>j. v (X j))
                      (filter (\<lambda>j. e \<in> set (members_of S j)) [1..num_S]))
                    - requirement_of r e * v (Y e)"
      by simp
  qed
  have s: "sense ?P3 = LpMinimize" by simp
  have ob: "objective ?P3 = Some obj" by simp
  from run keys_LpVariable_dict [of X "[1..num_S]" 0 1 LpInteger] vx
    keys_LpVariable_dict [of Y "[1..num_E]" 0 1 LpInteger] vy s ob o3 len c0 ce
  show ?thesis by blast
qed

text \<open>
  The specification's instance (three elements, two sets, threshold 2).
\<close>

theorem model_builder_program_witness:
  "\<exists>PSMC x y obj.
      create_Instance (\<lambda>p n. Inr p) (\<lambda>p b. Inr p) [(1, 1), (2, 2), (3, 3)]
        [(1, [1, 2]), (2, [2, 3])] [(1, 1), (2, 1), (3, 1)] [(1, 5), (2, 3)] 3 2 2
        = Inr (PSMC, x, y)
    \<and> keys x = [1..2]
    \<and> (\<forall>j \<in> set [1..2]. getitem x j = Inr (binary_variable (X j)))
    \<and> keys y = [1..3]
    \<and> (\<forall>e \<in> set [1..3]. getitem y e = Inr (binary_variable (Y e)))
    \<and> sense PSMC = LpMinimize
    \<and> objective PSMC = Some obj
    \<and> (\<forall>v. eval_affine v obj = sum_list (map (\<lambda>j. cost_of [(1, 5), (2, 3)] j * v (X j)) [1..2]))
    \<and> length (constraints PSMC) = 1 + nat 3
    \<and> (\<forall>v. holds v (constraints PSMC ! 0)
           \<longleftrightarrow> 2 \<le> sum_list (map (\<lambda>e. v (Y e)) [1..3]))
    \<and> (\<forall>e \<in> set [1..3]. \<forall>v. holds v (constraints PSMC ! nat e)
           \<longleftrightarrow> 0 \<le> sum_list (map (\<lambda>j. v (X j))
                      (filter (\<lambda>j. e \<in> set (members_of [(1, [1, 2]), (2, [2, 3])] j)) [1..2]))
                    - requirement_of [(1, 1), (2, 1), (3, 1)] e * v (Y e))"
  by (rule model_builder_program [OF spec_inst]) simp_all

text \<open>
  C10: for the empty solution list the minimality check returns True at once, so an empty
  solution never gets the "not minimal" line; with declared cost 0 the cost check passes and
  the line printed depends only on the covering check, which for no selected set counts zero
  satisfied elements and so passes exactly when the threshold is at most 0.
\<close>

theorem empty_solution_never_not_minimal:
  "verify_minimal Re [] S P = Inr True
   \<and> main_checks S r c P Costs [] \<noteq> Inr NotMinimal
   \<and> verify_costs [] 0 c = Inr True
   \<and> verify_covering_requirement r [] S P = Inr (P \<le> 0)
   \<and> main_checks S r c P 0 [] = Inr (if P \<le> 0 then Correct else Infeasible)"
  by (simp add: verify_minimal_def main_checks_def verify_costs_def
      verify_covering_requirement_def CostMismatch_def Infeasible_def NotMinimal_def Correct_def)

end
